theory Spec2Isabelle
  imports Complex_Main "HOL-Library.Sublist"
begin

section \<open>Python strings\<close>

text \<open>
  The retrieval core of \<^verbatim>\<open>src/vector_store.py\<close> works on the text of table cells.
  A Python \<^verbatim>\<open>str\<close> is a \<^typ>\<open>string\<close> here; cell text is taken to be ASCII, so that
  \<^verbatim>\<open>str.lower\<close>, \<^verbatim>\<open>str.strip\<close> and \<^verbatim>\<open>str.split\<close> only have to know the ASCII letters and
  the ASCII white space.
\<close>

definition lower_char :: "char \<Rightarrow> char" where
  "lower_char c =
     (case map_of (zip ''ABCDEFGHIJKLMNOPQRSTUVWXYZ'' ''abcdefghijklmnopqrstuvwxyz'') c of
        Some d \<Rightarrow> d
      | None \<Rightarrow> c)"

definition lower :: "string \<Rightarrow> string" where
  "lower s = map lower_char s"

definition is_space :: "char \<Rightarrow> bool" where
  "is_space c = (c \<in> set [CHR 0x09, CHR 0x0A, CHR 0x0B, CHR 0x0C, CHR 0x0D,
                           CHR 0x1C, CHR 0x1D, CHR 0x1E, CHR 0x1F, CHR 0x20])"

definition strip :: "string \<Rightarrow> string" where
  "strip s = rev (dropWhile is_space (rev (dropWhile is_space s)))"

text \<open>\<^verbatim>\<open>sub in s\<close>: \<open>sub\<close> occurs in \<open>s\<close> as a contiguous substring.\<close>

fun py_in :: "string \<Rightarrow> string \<Rightarrow> bool" where
  "py_in sub [] = (sub = [])"
| "py_in sub (c # cs) = (prefix sub (c # cs) \<or> py_in sub cs)"

text \<open>\<^verbatim>\<open>s.replace(a, b)\<close> for one-character \<open>a\<close> and \<open>b\<close>, and \<^verbatim>\<open>s.replace(a, "")\<close>.\<close>

definition replace_char :: "char \<Rightarrow> char \<Rightarrow> string \<Rightarrow> string" where
  "replace_char a b s = map (\<lambda>c. if c = a then b else c) s"

definition remove_char :: "char \<Rightarrow> string \<Rightarrow> string" where
  "remove_char a s = filter (\<lambda>c. c \<noteq> a) s"

text \<open>\<^verbatim>\<open>" ".join(parts)\<close>.\<close>

fun join_sp :: "string list \<Rightarrow> string" where
  "join_sp [] = []"
| "join_sp [p] = p"
| "join_sp (p # q # ps) = p @ '' '' @ join_sp (q # ps)"

text \<open>\<^verbatim>\<open>s.split()\<close>: the maximal runs of non-space characters, in order.\<close>

fun split_acc :: "string \<Rightarrow> string \<Rightarrow> string list" where
  "split_acc cur [] = (if cur = [] then [] else [cur])"
| "split_acc cur (c # cs) =
     (if is_space c then (if cur = [] then split_acc [] cs else cur # split_acc [] cs)
      else split_acc (cur @ [c]) cs)"

definition split :: "string \<Rightarrow> string list" where
  "split s = split_acc [] s"

text \<open>
  \<^verbatim>\<open>int(s)\<close> on a string: white space around the number is dropped, one sign is allowed,
  and the digits may be grouped by single underscores. Anything else raises
  \<^verbatim>\<open>ValueError\<close>, which is the value \<open>None\<close> here.
\<close>

definition digit_val :: "char \<Rightarrow> nat option" where
  "digit_val c = map_of (zip ''0123456789'' [0, 1, 2, 3, 4, 5, 6, 7, 8, 9]) c"

fun digits_acc :: "nat \<Rightarrow> string \<Rightarrow> nat option" where
  "digits_acc n [] = Some n"
| "digits_acc n (c # cs) =
     (if c = CHR ''_'' then
        (case cs of
           [] \<Rightarrow> None
         | d # ds \<Rightarrow> (case digit_val d of None \<Rightarrow> None | Some v \<Rightarrow> digits_acc (10 * n + v) ds))
      else (case digit_val c of None \<Rightarrow> None | Some v \<Rightarrow> digits_acc (10 * n + v) cs))"

definition digits :: "string \<Rightarrow> nat option" where
  "digits s =
     (case s of
        [] \<Rightarrow> None
      | c # cs \<Rightarrow> (case digit_val c of None \<Rightarrow> None | Some v \<Rightarrow> digits_acc v cs))"

definition py_int :: "string \<Rightarrow> int option" where
  "py_int s =
     (case strip s of
        [] \<Rightarrow> None
      | c # cs \<Rightarrow>
          if c = CHR ''-'' then map_option (\<lambda>n. - int n) (digits cs)
          else if c = CHR ''+'' then map_option int (digits cs)
          else map_option int (digits (c # cs)))"

section \<open>Data frames\<close>

text \<open>
  A \<^verbatim>\<open>pandas.DataFrame\<close> is its column labels and its rows, each row an index label with
  one cell per column. A cell of a frame as loaded is \<open>None\<close> when it is null;
  \<^verbatim>\<open>fillna("")\<close> turns it into the empty text, and from then on a cell is the text that
  \<^verbatim>\<open>str\<close> gives for it. A row handed out by \<^verbatim>\<open>iterrows\<close> or \<^verbatim>\<open>apply(axis=1)\<close> is a
  \<^verbatim>\<open>Series\<close>: the cells paired with their column labels.
\<close>

datatype 'c frame = Frame (columns: "string list") (rows: "(nat \<times> 'c list) list")

type_synonym series = "(string \<times> string) list"

definition empty_frame :: "'c frame" where
  "empty_frame = Frame [] []"

text \<open>\<^verbatim>\<open>df.empty\<close>: some axis has length zero.\<close>

definition empty :: "'c frame \<Rightarrow> bool" where
  "empty f = (columns f = [] \<or> rows f = [])"

definition fillna :: "string option frame \<Rightarrow> string frame" where
  "fillna f =
     Frame (columns f)
       (map (\<lambda>(i, cs). (i, map (\<lambda>c. case c of None \<Rightarrow> [] | Some t \<Rightarrow> t) cs)) (rows f))"

definition as_series :: "string list \<Rightarrow> string list \<Rightarrow> series" where
  "as_series cols cs = zip cols cs"

definition iterrows :: "string frame \<Rightarrow> (nat \<times> series) list" where
  "iterrows f = map (\<lambda>(i, cs). (i, as_series (columns f) cs)) (rows f)"

text \<open>\<^verbatim>\<open>row.get(label, default)\<close>.\<close>

definition get :: "series \<Rightarrow> string \<Rightarrow> string \<Rightarrow> string" where
  "get r label dflt = (case map_of r label of Some v \<Rightarrow> v | None \<Rightarrow> dflt)"

text \<open>\<^verbatim>\<open>df[df.apply(p, axis=1)]\<close>: the rows on which \<open>p\<close> holds, in their order.\<close>

definition select_rows :: "(series \<Rightarrow> bool) \<Rightarrow> string frame \<Rightarrow> string frame" where
  "select_rows p f =
     Frame (columns f) (filter (\<lambda>(i, cs). p (as_series (columns f) cs)) (rows f))"

text \<open>
  \<^verbatim>\<open>df.loc[labels]\<close>: for each label in turn, the rows that carry it.
  \<^verbatim>\<open>df.loc[i]\<close> for one label of a frame whose labels are distinct is that row.
\<close>

definition loc_list :: "string frame \<Rightarrow> nat list \<Rightarrow> string frame" where
  "loc_list f labels =
     Frame (columns f) (concat (map (\<lambda>i. filter (\<lambda>(j, cs). j = i) (rows f)) labels))"

definition loc :: "string frame \<Rightarrow> nat \<Rightarrow> series" where
  "loc f i =
     (case filter (\<lambda>(j, cs). j = i) (rows f) of
        [] \<Rightarrow> []
      | (j, cs) # rest \<Rightarrow> as_series (columns f) cs)"

text \<open>\<^verbatim>\<open>df.head(n)\<close>: the first \<open>n\<close> rows, or all but the last \<open>-n\<close> for a negative \<open>n\<close>.\<close>

definition head :: "int \<Rightarrow> string frame \<Rightarrow> string frame" where
  "head n f =
     Frame (columns f)
       (if 0 \<le> n then take (nat n) (rows f)
        else take (length (rows f) - nat (- n)) (rows f))"

section \<open>The retriever\<close>

subsection \<open>Tokens and row text\<close>

definition tokenize :: "string \<Rightarrow> string list" where
  "tokenize text =
     filter (\<lambda>t. t \<noteq> [])
       (split (replace_char (CHR ''-'') (CHR '' '') (replace_char (CHR ''/'') (CHR '' '') (lower text))))"

definition row_text :: "series \<Rightarrow> string" where
  "row_text row =
     join_sp
       [get row ''Card Name'' (get row ''card_name'' ''''),
        get row ''Description'' (get row ''description'' ''''),
        get row ''Key Benefits'' (get row ''key_benefits'' ''''),
        get row ''Tags'' (get row ''tags'' ''''),
        get row ''Eligibility'' (get row ''eligibility'' ''''),
        get row ''Bank Name'' (get row ''bank_name'' ''''),
        get row ''Card Type'' (get row ''card_type'' '''')]"

subsection \<open>The filter stage\<close>

text \<open>
  \<^verbatim>\<open>_apply_filters\<close>, one definition per \<^verbatim>\<open>if\<close> block. An argument that is \<^verbatim>\<open>None\<close>,
  an empty bank name, a zero fee ceiling and an empty category list are all false in
  the \<^verbatim>\<open>if\<close> that guards their block.
\<close>

definition bank_field :: "series \<Rightarrow> string" where
  "bank_field r = get r ''Bank Name'' (get r ''bank_name'' '''')"

definition bank_match :: "string \<Rightarrow> series \<Rightarrow> bool" where
  "bank_match bank r = py_in (lower bank) (lower (bank_field r))"

definition bank_filter :: "string option \<Rightarrow> string frame \<Rightarrow> string frame" where
  "bank_filter bank out =
     (case bank of
        None \<Rightarrow> out
      | Some b \<Rightarrow>
          if b = [] then out
          else (let strict = select_rows (bank_match b) out
                in if \<not> empty strict then strict else out))"

definition fee_val :: "string \<Rightarrow> int" where
  "fee_val x = (case py_int (remove_char (CHR '','') x) of Some n \<Rightarrow> n | None \<Rightarrow> 10 ^ 9)"

definition fee_col :: "string frame \<Rightarrow> string" where
  "fee_col out = (if ''Annual Fee'' \<in> set (columns out) then ''Annual Fee'' else ''annual_fee'')"

definition fee_filter :: "int option \<Rightarrow> string frame \<Rightarrow> string frame" where
  "fee_filter max_fee out =
     (case max_fee of
        None \<Rightarrow> out
      | Some m \<Rightarrow>
          if m = 0 then out
          else if fee_col out \<in> set (columns out)
            then select_rows (\<lambda>r. fee_val (get r (fee_col out) '''') \<le> m) out
            else out)"

definition in_cats :: "string list \<Rightarrow> series \<Rightarrow> bool" where
  "in_cats cats row =
     (let blob = lower (join_sp [get row ''Tags'' '''', get row ''Key Benefits'' '''',
                                 get row ''Description'' ''''])
      in list_ex (\<lambda>c. py_in c blob) cats)"

definition category_filter :: "string list option \<Rightarrow> string frame \<Rightarrow> string frame" where
  "category_filter categories out =
     (case categories of
        None \<Rightarrow> out
      | Some cs \<Rightarrow> if cs = [] then out else select_rows (in_cats (map lower cs)) out)"

definition apply_filters ::
  "string frame \<Rightarrow> string option \<Rightarrow> int option \<Rightarrow> string list option \<Rightarrow> string frame" where
  "apply_filters df bank max_fee categories =
     category_filter categories (fee_filter max_fee (bank_filter bank df))"

subsection \<open>Scoring\<close>

text \<open>
  A score is a Python \<^verbatim>\<open>float\<close>. It is modelled by the real number the float stands
  for, so the rounding of an addition is not part of the model; the order of two scores
  and whether two scores are equal is.

  \<^verbatim>\<open>BM25Okapi(corpus).get_scores(query)\<close> of the \<^verbatim>\<open>rank_bm25\<close> package and
  \<^verbatim>\<open>fuzz.partial_ratio\<close> of \<^verbatim>\<open>rapidfuzz\<close> are not code of this repository. The
  retriever takes them as arguments: a scorer maps the tokenised documents and the query
  tokens to one score per document, a ratio maps two names to a similarity.
\<close>

type_synonym scorer = "string list list \<Rightarrow> string list \<Rightarrow> real list"

type_synonym ratio = "string \<Rightarrow> string \<Rightarrow> real"

definition keyword_synonyms :: "string list" where
  "keyword_synonyms =
     [''cashback'', ''travel'', ''lounge'', ''fuel'', ''shopping'', ''dining'', ''online'',
      ''groceries'', ''rewards'', ''airport'', ''airport lounge'', ''priority pass'',
      ''milestone'', ''annual fee waiver'', ''forex'', ''foreign'', ''international'',
      ''movie'', ''movies'', ''cinema'', ''railway lounge'', ''travel insurance'',
      ''dining offers'', ''fuel surcharge'']"

definition keyword_text :: "series \<Rightarrow> string" where
  "keyword_text row =
     lower (join_sp [get row ''Card Name'' '''', get row ''Description'' '''',
                     get row ''Key Benefits'' '''', get row ''Tags'' ''''])"

definition keyword_bonus :: "string \<Rightarrow> series \<Rightarrow> real" where
  "keyword_bonus query row =
     (let q = lower query;
          txt = keyword_text row;
          bonus = foldl (\<lambda>b w. if py_in w q \<and> py_in w txt then b + 0.05 else b) 0
                    keyword_synonyms
      in min bonus 0.20)"

definition bank_bonus :: "string option \<Rightarrow> series \<Rightarrow> real" where
  "bank_bonus bank row =
     (case bank of
        None \<Rightarrow> 0
      | Some b \<Rightarrow>
          if b = [] then 0
          else if py_in (lower b) (lower (bank_field row)) then 0.25 else 0)"

subsection \<open>The retriever object and its search\<close>

record retriever =
  retr_k :: int
  retr_df :: "string frame"
  retr_bm25 :: "string list list option"
  retr_corpus :: "string list list"

text \<open>
  \<^verbatim>\<open>LocalRetriever.__init__\<close>. The field \<^verbatim>\<open>_bm25\<close> is \<open>None\<close> or the index, which is
  kept as the corpus it was built over.
\<close>

definition LocalRetriever :: "string option frame option \<Rightarrow> int \<Rightarrow> retriever" where
  "LocalRetriever d kk =
     (let fr = (case d of
                  None \<Rightarrow> empty_frame
                | Some f \<Rightarrow> if \<not> empty f then fillna f else empty_frame);
          corp = (if \<not> empty fr then map (\<lambda>(i, r). tokenize (row_text r)) (iterrows fr)
                  else [])
      in \<lparr>retr_k = kk, retr_df = fr,
          retr_bm25 = (if \<not> empty fr then Some corp else None),
          retr_corpus = corp\<rparr>)"

text \<open>\<^verbatim>\<open>k = k or self.k\<close>.\<close>

definition effective_k :: "retriever \<Rightarrow> int option \<Rightarrow> int" where
  "effective_k self kk =
     (case kk of None \<Rightarrow> retr_k self | Some n \<Rightarrow> if n = 0 then retr_k self else n)"

text \<open>\<^verbatim>\<open>base = self._apply_filters(...)\<close>, then \<^verbatim>\<open>if base.empty: base = self.df\<close>.\<close>

definition search_base ::
  "retriever \<Rightarrow> string option \<Rightarrow> int option \<Rightarrow> string list option \<Rightarrow> string frame" where
  "search_base self bank max_fee categories =
     (let base = apply_filters (retr_df self) bank max_fee categories
      in if empty base then retr_df self else base)"

text \<open>The list \<^verbatim>\<open>rows\<close> of (index label, score) pairs, before it is sorted.\<close>

definition score_rows ::
  "scorer \<Rightarrow> string \<Rightarrow> string option \<Rightarrow> string frame \<Rightarrow> (nat \<times> real) list" where
  "score_rows get_scores query bank base =
     (let queries = tokenize query;
          base_tokens = map (\<lambda>(i, r). tokenize (row_text r)) (iterrows base);
          sims = get_scores base_tokens queries
      in map (\<lambda>((i, row), sim). (i, sim + keyword_bonus query row + bank_bonus bank row))
           (zip (iterrows base) sims))"

text \<open>
  \<^verbatim>\<open>rows.sort(key=lambda x: x[1], reverse=True)\<close>: Python's sort is stable, also with
  \<^verbatim>\<open>reverse=True\<close>, so it is the stable sort by the negated score.
\<close>

definition sort_rows :: "(nat \<times> real) list \<Rightarrow> (nat \<times> real) list" where
  "sort_rows rs = sort_key (\<lambda>x. - snd x) rs"

definition card_name :: "string frame \<Rightarrow> nat \<Rightarrow> string" where
  "card_name base i =
     lower (strip (get (loc base i) ''Card Name'' (get (loc base i) ''card_name'' '''')))"

text \<open>
  The diversity loop over the sorted labels, with its two accumulators \<^verbatim>\<open>seen\<close> and
  \<^verbatim>\<open>picked\<close>; it returns \<^verbatim>\<open>picked\<close> when the labels are used up or at the \<^verbatim>\<open>break\<close>.
\<close>

fun pick :: "ratio \<Rightarrow> int \<Rightarrow> string frame \<Rightarrow> nat list \<Rightarrow> string set \<Rightarrow> nat list \<Rightarrow> nat list" where
  "pick partial_ratio kk base [] seen picked = picked"
| "pick partial_ratio kk base (i # js) seen picked =
     (let name = card_name base i
      in if \<exists>s\<in>seen. partial_ratio name s \<ge> 92 then pick partial_ratio kk base js seen picked
         else if int (length (picked @ [i])) \<ge> max (kk * 2) 12 then picked @ [i]
         else pick partial_ratio kk base js (insert name seen) (picked @ [i]))"

definition rename_map :: "(string \<times> string) list" where
  "rename_map =
     [(''Card Name'', ''card_name''), (''Bank Name'', ''bank_name''),
      (''Card Type'', ''card_type''), (''Tags'', ''tags''), (''Website'', ''website''),
      (''Description'', ''description''), (''Eligibility'', ''eligibility''),
      (''Annual Fee'', ''annual_fee''), (''Key Benefits'', ''key_benefits''),
      (''FAQ'', ''faq'')]"

definition rename_col :: "string \<Rightarrow> string" where
  "rename_col c = (case map_of rename_map c of Some n \<Rightarrow> n | None \<Rightarrow> c)"

definition rename_columns :: "string frame \<Rightarrow> string frame" where
  "rename_columns f = Frame (map rename_col (columns f)) (rows f)"

text \<open>Steps 2 to 4 of \<^verbatim>\<open>search\<close>, on the frame \<^verbatim>\<open>base\<close> and with the \<^verbatim>\<open>k\<close> in force.\<close>

definition ranked :: "scorer \<Rightarrow> string \<Rightarrow> string option \<Rightarrow> string frame \<Rightarrow> (nat \<times> real) list" where
  "ranked get_scores query bank base = sort_rows (score_rows get_scores query bank base)"

definition diverse ::
  "scorer \<Rightarrow> ratio \<Rightarrow> int \<Rightarrow> string \<Rightarrow> string option \<Rightarrow> string frame \<Rightarrow> nat list" where
  "diverse get_scores partial_ratio kk query bank base =
     pick partial_ratio kk base (map fst (ranked get_scores query bank base)) {} []"

definition top_k ::
  "scorer \<Rightarrow> ratio \<Rightarrow> int \<Rightarrow> string \<Rightarrow> string option \<Rightarrow> string frame \<Rightarrow> string frame" where
  "top_k get_scores partial_ratio kk query bank base =
     rename_columns
       (head kk (loc_list base (diverse get_scores partial_ratio kk query bank base)))"

definition search ::
  "scorer \<Rightarrow> ratio \<Rightarrow> retriever \<Rightarrow> string \<Rightarrow> string option \<Rightarrow> int option
     \<Rightarrow> string list option \<Rightarrow> int option \<Rightarrow> string frame" where
  "search get_scores partial_ratio self query bank max_fee categories kk =
     (if empty (retr_df self) \<or> retr_bm25 self = None then empty_frame
      else top_k get_scores partial_ratio (effective_k self kk) query bank
             (search_base self bank max_fee categories))"

section \<open>The vector store and its process-wide cache\<close>

text \<open>
  \<^verbatim>\<open>CreditCardVectorStore.__init__\<close> reads the environment and the file system and
  updates the module-level dictionary \<^verbatim>\<open>_RETRIEVER_CACHE\<close>. The environment is a
  \<open>world\<close>: the value of \<^verbatim>\<open>CREDIT_CARD_DATA_PATH\<close> when it is set, and for every path
  that exists the table \<^verbatim>\<open>pd.read_csv\<close> reads from it. Retriever objects live in a heap,
  an object's address being its position, so that the cache holds references and
  building a retriever is seen as an allocation.
\<close>

record world =
  env_data_path :: "string option"
  files :: "string \<Rightarrow> string option frame option"

record state =
  heap :: "retriever list"
  cache :: "string \<Rightarrow> nat option"

record vector_store =
  data_path :: string
  vs_df :: "string frame"
  vs_retriever :: nat

definition getenv_data_path :: "world \<Rightarrow> string" where
  "getenv_data_path w =
     (case env_data_path w of Some v \<Rightarrow> v | None \<Rightarrow> ''credit_cards_dataset.csv'')"

definition resolve_path :: "world \<Rightarrow> string option \<Rightarrow> string" where
  "resolve_path w path =
     (case path of None \<Rightarrow> getenv_data_path w
      | Some p \<Rightarrow> if p = [] then getenv_data_path w else p)"

definition cache_key :: "string \<Rightarrow> string" where
  "cache_key p = p @ ''::bm25''"

text \<open>A frame of texts, seen as a loaded frame none of whose cells is null.\<close>

definition no_nulls :: "string frame \<Rightarrow> string option frame" where
  "no_nulls f = Frame (columns f) (map (\<lambda>(i, cs). (i, map Some cs)) (rows f))"

definition load_df :: "world \<Rightarrow> string \<Rightarrow> string frame" where
  "load_df w p = (case files w p of Some f \<Rightarrow> fillna f | None \<Rightarrow> empty_frame)"

definition vector_store_init ::
  "world \<Rightarrow> bool \<Rightarrow> string option \<Rightarrow> state \<Rightarrow> vector_store \<times> state" where
  "vector_store_init w force_reindex path s =
     (let p = resolve_path w path;
          d = load_df w p;
          key = cache_key p
      in case (if force_reindex then None else cache s key) of
           Some a \<Rightarrow> (\<lparr>data_path = p, vs_df = d, vs_retriever = a\<rparr>, s)
         | None \<Rightarrow>
             (let a = length (heap s)
              in (\<lparr>data_path = p, vs_df = d, vs_retriever = a\<rparr>,
                  \<lparr>heap = heap s @ [LocalRetriever (Some (no_nulls d)) 10],
                   cache = (cache s)(key \<mapsto> a)\<rparr>)))"

text \<open>\<^verbatim>\<open>as_retriever\<close> sets \<^verbatim>\<open>k\<close> on the shared retriever object and returns it.\<close>

definition as_retriever :: "vector_store \<Rightarrow> int \<Rightarrow> state \<Rightarrow> nat \<times> state" where
  "as_retriever vs kk s =
     (vs_retriever vs,
      s\<lparr>heap := (heap s)[vs_retriever vs := (heap s ! vs_retriever vs)\<lparr>retr_k := kk\<rparr>]\<rparr>)"

section \<open>Stand-ins for the two libraries, for the examples\<close>

text \<open>
  The examples below run the retriever on small tables. They need a scorer and a ratio
  to run with: the scorer counts the occurrences of query tokens in a document, the ratio
  is 100 on equal names and 0 otherwise.
\<close>

definition overlap_scores :: scorer where
  "overlap_scores docs q = map (\<lambda>d. real (length (filter (\<lambda>t. t \<in> set q) d))) docs"

definition same_name_ratio :: ratio where
  "same_name_ratio a b = (if a = b then 100 else 0)"

text \<open>A table with one card, whose annual fee is 5000.\<close>

definition fee_table :: "string option frame" where
  "fee_table = Frame [''Card Name'', ''Bank Name'', ''Annual Fee'']
                 [(0, [Some ''Gold'', Some ''SBI'', Some ''5000''])]"

text \<open>A table with one card, whose annual fee is the text \<open>N/A\<close>.\<close>

definition na_table :: "string frame" where
  "na_table = Frame [''Card Name'', ''Annual Fee''] [(0, [''Plain'', ''N/A''])]"

text \<open>
  One card as a row of a table with snake-case column names, and the same card as a row
  of a table with title-case column names.
\<close>

definition snake_row :: series where
  "snake_row = as_series [''card_name'', ''description''] [''Saver'', ''5% cashback on fuel'']"

definition title_row :: series where
  "title_row = as_series [''Card Name'', ''Description''] [''Saver'', ''5% cashback on fuel'']"

text \<open>A world whose only file is \<^verbatim>\<open>cards.csv\<close>, and the state of a process that has just started.\<close>

definition one_file_world :: world where
  "one_file_world =
     \<lparr>env_data_path = None,
      files = (\<lambda>p. if p = ''cards.csv'' then Some fee_table else None)\<rparr>"

definition fresh_state :: state where
  "fresh_state = \<lparr>heap = [], cache = (\<lambda>key. None)\<rparr>"

text \<open>
  The final score that \<^verbatim>\<open>rows\<close> holds for the index label \<open>i\<close> of \<^verbatim>\<open>base\<close> (0 for a label
  that \<^verbatim>\<open>rows\<close> does not hold).
\<close>

definition final_score :: "scorer \<Rightarrow> string \<Rightarrow> string option \<Rightarrow> string frame \<Rightarrow> nat \<Rightarrow> real" where
  "final_score get_scores query bank base i =
     (case map_of (score_rows get_scores query bank base) i of Some s \<Rightarrow> s | None \<Rightarrow> 0)"

text \<open>Four cards, two of which get the same score for the query \<open>fuel\<close>.\<close>

definition tie_table :: "string option frame" where
  "tie_table = Frame [''Card Name'', ''Description'']
                 [(0, [Some ''Alpha'', Some ''travel card'']),
                  (1, [Some ''Beta'', Some ''fuel card'']),
                  (2, [Some ''Gamma'', Some ''fuel card'']),
                  (3, [Some ''Delta'', Some ''fuel fuel card''])]"




text \<open>The table \<open>fee_table\<close> with the canonical column names.\<close>

definition snake_fee_table :: "string option frame" where
  "snake_fee_table = Frame [''card_name'', ''bank_name'', ''annual_fee'']
                       [(0, [Some ''Gold'', Some ''SBI'', Some ''5000''])]"

section \<open>Properties\<close>

text \<open>
  C10. A fee ceiling of zero is false in \<^verbatim>\<open>if max_fee:\<close>, so the fee block is skipped:
  the filter stage returns what it returns with no ceiling at all, and with no bank and
  no categories either it returns every row, whatever its fee.
\<close>

theorem C10_zero_fee_ceiling_skips_fee_filter:
  "apply_filters df bank (Some 0) categories = apply_filters df bank None categories
   \<and> apply_filters df None (Some 0) None = df"
  by (simp add: apply_filters_def fee_filter_def bank_filter_def category_filter_def)

subsection \<open>Frames and the filter stage\<close>

lemma columns_select_rows [simp]: "columns (select_rows p f) = columns f"
  by (simp add: select_rows_def)

lemma rows_select_rows:
  "rows (select_rows p f) = filter (\<lambda>(i, cs). p (as_series (columns f) cs)) (rows f)"
  by (simp add: select_rows_def)

lemma subseq_select_rows: "subseq (rows (select_rows p f)) (rows f)"
  by (simp add: rows_select_rows)

lemma columns_bank_filter [simp]: "columns (bank_filter bank f) = columns f"
  by (simp add: bank_filter_def Let_def split: option.splits)

lemma columns_fee_filter [simp]: "columns (fee_filter m f) = columns f"
  by (simp add: fee_filter_def split: option.splits)

lemma columns_category_filter [simp]: "columns (category_filter c f) = columns f"
  by (simp add: category_filter_def split: option.splits)

lemma columns_apply_filters [simp]: "columns (apply_filters f b m c) = columns f"
  by (simp add: apply_filters_def)

lemma subseq_bank_filter: "subseq (rows (bank_filter bank f)) (rows f)"
  by (simp add: bank_filter_def Let_def subseq_select_rows split: option.splits)

lemma subseq_fee_filter: "subseq (rows (fee_filter m f)) (rows f)"
  by (simp add: fee_filter_def subseq_select_rows split: option.splits)

lemma subseq_category_filter: "subseq (rows (category_filter c f)) (rows f)"
  by (simp add: category_filter_def subseq_select_rows split: option.splits)

lemma subseq_apply_filters: "subseq (rows (apply_filters f b m c)) (rows f)"
  unfolding apply_filters_def
  by (meson subseq_bank_filter subseq_fee_filter subseq_category_filter subseq_order.trans)

lemma columns_search_base [simp]: "columns (search_base self b m c) = columns (retr_df self)"
  by (simp add: search_base_def Let_def)

lemma subseq_search_base: "subseq (rows (search_base self b m c)) (rows (retr_df self))"
  by (simp add: search_base_def Let_def subseq_apply_filters)

lemma rows_empty_frame [simp]: "rows empty_frame = []"
  by (simp add: empty_frame_def)

lemma rows_rename_columns [simp]: "rows (rename_columns f) = rows f"
  by (simp add: rename_columns_def)

lemma length_rows_head: "0 \<le> n \<Longrightarrow> int (length (rows (head n f))) \<le> n"
  by (simp add: head_def)

lemma length_rows_top_k: "0 \<le> n \<Longrightarrow> int (length (rows (top_k gs pr n q b base))) \<le> n"
  by (simp add: top_k_def length_rows_head)

lemma length_rows_search:
  "0 \<le> effective_k self kk \<Longrightarrow>
   int (length (rows (search gs pr self q b m c kk))) \<le> effective_k self kk"
  by (simp add: search_def length_rows_top_k)

text \<open>
  C3. For a positive \<open>k\<close> the result has at most \<open>k\<close> rows. A \<open>k\<close> of zero is false in
  \<^verbatim>\<open>k = k or self.k\<close> and stands for the retriever's own \<open>k\<close>, as a missing \<open>k\<close> does:
  the result then has at most that many rows. On the one-card table, \<open>k = 0\<close> returns
  one row.
\<close>

theorem C3_counterexample:
  "\<not> int (length (rows (search overlap_scores same_name_ratio (LocalRetriever (Some fee_table) 10)
        ''gold'' None None None (Some 0)))) \<le> 0"
  by code_simp

text \<open>
  C3, as amended: the length is at most \<open>k\<close> for every positive \<open>k\<close>, and at most the
  retriever's own \<open>k\<close> (when that is not negative) for \<open>k = 0\<close> and for no \<open>k\<close>.
\<close>

theorem C3_length_at_most_positive_k:
  "(0 < n \<longrightarrow> int (length (rows (search gs pr self q b m c (Some n)))) \<le> n)
   \<and> (0 \<le> retr_k self \<longrightarrow>
        int (length (rows (search gs pr self q b m c (Some 0)))) \<le> retr_k self
        \<and> int (length (rows (search gs pr self q b m c None))) \<le> retr_k self)"
  using length_rows_search [of self "Some n" gs pr q b m c]
    length_rows_search [of self "Some 0" gs pr q b m c]
    length_rows_search [of self None gs pr q b m c]
  by (auto simp: effective_k_def split: if_splits)

theorem C3_length_at_most_positive_k_witness:
  "(0::int) < 1 \<and> (0::int) \<le> retr_k (LocalRetriever (Some fee_table) 10)
   \<and> int (length (rows (search overlap_scores same_name_ratio (LocalRetriever (Some fee_table) 10)
        ''gold'' None None None (Some 1)))) \<le> 1
   \<and> int (length (rows (search overlap_scores same_name_ratio (LocalRetriever (Some fee_table) 10)
        ''gold'' None None None (Some 0)))) \<le> retr_k (LocalRetriever (Some fee_table) 10)"
proof -
  have k: "retr_k (LocalRetriever (Some fee_table) 10) = 10"
    by (simp add: LocalRetriever_def Let_def)
  show ?thesis
    using C3_length_at_most_positive_k [of 1 overlap_scores same_name_ratio
        "LocalRetriever (Some fee_table) 10" "''gold''" None None None]
    by (simp add: k)
qed

subsection \<open>The fallback of search\<close>

lemma pick_prefix: "prefix picked (pick pr kk base js seen picked)"
proof (induction js arbitrary: seen picked)
  case Nil
  show ?case by simp
next
  case (Cons i js)
  have "prefix picked (picked @ [i])" by simp
  moreover have "prefix (picked @ [i]) (pick pr kk base js (insert (card_name base i) seen) (picked @ [i]))"
    by (rule Cons.IH)
  ultimately have "prefix picked (pick pr kk base js (insert (card_name base i) seen) (picked @ [i]))"
    by (rule prefix_order.trans)
  then show ?case
    using Cons.IH [of picked seen] by (simp add: Let_def)
qed

lemma pick_first: "i \<in> set (pick pr kk base (i # js) {} [])"
proof -
  have "prefix [i] (pick pr kk base js (insert (card_name base i) {}) [i])"
    by (rule pick_prefix)
  then have "i \<in> set (pick pr kk base js (insert (card_name base i) {}) [i])"
    by (auto simp: prefix_def)
  then show ?thesis by (simp add: Let_def)
qed

lemma length_score_rows:
  "length (gs (map (\<lambda>(i, r). tokenize (row_text r)) (iterrows base)) (tokenize q))
     = length (rows base)
   \<Longrightarrow> length (score_rows gs q b base) = length (rows base)"
  by (simp add: score_rows_def Let_def iterrows_def)

lemma map_fst_score_rows:
  "map fst (score_rows gs q b base)
     = take (length (gs (map (\<lambda>(i, r). tokenize (row_text r)) (iterrows base)) (tokenize q)))
         (map fst (rows base))"
proof -
  have "map fst (map (\<lambda>((i, row), sim). (i, f i row sim)) (zip xs ys)) = take (length ys) (map fst xs)"
    for f :: "nat \<Rightarrow> series \<Rightarrow> real \<Rightarrow> real" and xs :: "(nat \<times> series) list" and ys :: "real list"
  proof (induction xs arbitrary: ys)
    case Nil
    show ?case by simp
  next
    case (Cons x xs)
    then show ?case by (cases ys) (auto split: prod.splits)
  qed
  from this [of "\<lambda>i row sim. sim + keyword_bonus q row + bank_bonus b row" "iterrows base"]
  have "map fst (score_rows gs q b base)
     = take (length (gs (map (\<lambda>(i, r). tokenize (row_text r)) (iterrows base)) (tokenize q)))
         (map fst (iterrows base))"
    by (simp add: score_rows_def Let_def)
  moreover have "map fst (iterrows base) = map fst (rows base)"
    by (simp add: iterrows_def case_prod_unfold comp_def)
  ultimately show ?thesis by simp
qed

lemma set_ranked: "set (ranked gs q b base) = set (score_rows gs q b base)"
  by (simp add: ranked_def sort_rows_def)

lemma length_ranked: "length (ranked gs q b base) = length (score_rows gs q b base)"
  by (simp add: ranked_def sort_rows_def)

lemma labels_ranked: "fst ` set (ranked gs q b base) \<subseteq> fst ` set (rows base)"
proof -
  have "fst ` set (score_rows gs q b base) = set (map fst (score_rows gs q b base))" by simp
  also have "\<dots> \<subseteq> set (map fst (rows base))"
    unfolding map_fst_score_rows by (rule set_take_subset)
  finally show ?thesis by (simp add: set_ranked)
qed

lemma rows_loc_list_nonempty:
  assumes "i \<in> set labels" and "i \<in> fst ` set (rows base)"
  shows "rows (loc_list base labels) \<noteq> []"
proof -
  from assms(2) obtain cs where "(i, cs) \<in> set (rows base)" by auto
  then have "(i, cs) \<in> set (filter (\<lambda>(j, cs). j = i) (rows base))" by simp
  with assms(1) have "(i, cs) \<in> set (rows (loc_list base labels))"
    by (auto simp: loc_list_def)
  then show ?thesis by auto
qed

lemma rows_top_k_nonempty:
  assumes len: "length (gs (map (\<lambda>(i, r). tokenize (row_text r)) (iterrows base)) (tokenize q))
     = length (rows base)"
    and ne: "rows base \<noteq> []" and k: "1 \<le> kk"
  shows "rows (top_k gs pr kk q b base) \<noteq> []"
proof -
  have "length (ranked gs q b base) = length (rows base)"
    using len by (simp add: length_ranked length_score_rows)
  with ne obtain x xs where r: "ranked gs q b base = x # xs"
    by (cases "ranked gs q b base") auto
  then have "diverse gs pr kk q b base = pick pr kk base (fst x # map fst xs) {} []"
    by (simp only: diverse_def list.map)
  then have "fst x \<in> set (diverse gs pr kk q b base)"
    by (simp only: pick_first)
  moreover have "fst x \<in> fst ` set (rows base)"
    using labels_ranked [of gs q b base] r by auto
  ultimately have "rows (loc_list base (diverse gs pr kk q b base)) \<noteq> []"
    by (rule rows_loc_list_nonempty)
  with k show ?thesis
    by (simp add: top_k_def head_def)
qed

text \<open>
  C1. When the filter stage yields no row, \<^verbatim>\<open>search\<close> does not return an empty result:
  \<^verbatim>\<open>if base.empty: base = self.df\<close> puts the whole table back. On the one-card table with
  fee 5000, a fee ceiling of 1000 empties the filter stage, and search returns the card.
\<close>

theorem C1_counterexample:
  "rows (apply_filters (retr_df (LocalRetriever (Some fee_table) 10)) None (Some 1000) None) = []
   \<and> rows (search overlap_scores same_name_ratio (LocalRetriever (Some fee_table) 10)
        ''gold'' None (Some 1000) None None) = [(0, [''Gold'', ''SBI'', ''5000''])]"
  by code_simp

text \<open>
  C1, as amended: on a table that is not empty, when the filter stage yields no row,
  search ranks the whole table instead (with the same query, bank bonus and \<open>k\<close>), and
  with a \<open>k\<close> of at least one and a scorer that scores every document the result is not
  empty.
\<close>

theorem C1_empty_filter_result_falls_back:
  assumes "\<not> empty (retr_df self)" and "retr_bm25 self \<noteq> None"
    and "empty (apply_filters (retr_df self) bank max_fee categories)"
    and "\<And>docs q. length (gs docs q) = length docs"
    and "1 \<le> effective_k self kk"
  shows "search gs pr self query bank max_fee categories kk
           = top_k gs pr (effective_k self kk) query bank (retr_df self)
         \<and> rows (search gs pr self query bank max_fee categories kk) \<noteq> []"
proof -
  have s: "search gs pr self query bank max_fee categories kk
           = top_k gs pr (effective_k self kk) query bank (retr_df self)"
    using assms(1-3) by (auto simp: search_def search_base_def)
  have "rows (retr_df self) \<noteq> []"
    using assms(1) by (simp add: empty_def)
  then have "rows (top_k gs pr (effective_k self kk) query bank (retr_df self)) \<noteq> []"
    using assms(4,5) by (intro rows_top_k_nonempty) (simp_all add: iterrows_def)
  with s show ?thesis by simp
qed

theorem C1_empty_filter_result_falls_back_witness:
  "empty (apply_filters (retr_df (LocalRetriever (Some fee_table) 10)) None (Some 1000) None)
   \<and> search overlap_scores same_name_ratio (LocalRetriever (Some fee_table) 10)
        ''gold'' None (Some 1000) None None
      = top_k overlap_scores same_name_ratio 10 ''gold'' None
          (retr_df (LocalRetriever (Some fee_table) 10))
   \<and> rows (search overlap_scores same_name_ratio (LocalRetriever (Some fee_table) 10)
        ''gold'' None (Some 1000) None None) \<noteq> []"
proof -
  let ?r = "LocalRetriever (Some fee_table) 10"
  have a: "\<not> empty (retr_df ?r)" by code_simp
  have b: "retr_bm25 ?r \<noteq> None" by code_simp
  have c: "empty (apply_filters (retr_df ?r) None (Some 1000) None)" by code_simp
  have d: "\<And>docs q. length (overlap_scores docs q) = length docs"
    by (simp add: overlap_scores_def)
  have e: "effective_k ?r None = 10" by (simp add: effective_k_def LocalRetriever_def Let_def)
  have f: "1 \<le> effective_k ?r None" by (simp add: e)
  note t = C1_empty_filter_result_falls_back [where gs = overlap_scores and pr = same_name_ratio
        and query = "''gold''", OF a b c d f]
  from t have "search overlap_scores same_name_ratio ?r ''gold'' None (Some 1000) None None
      = top_k overlap_scores same_name_ratio 10 ''gold'' None (retr_df ?r)"
    and "rows (search overlap_scores same_name_ratio ?r ''gold'' None (Some 1000) None None) \<noteq> []"
    unfolding e by (rule conjunct1, rule conjunct2)
  with c show ?thesis by (intro conjI)
qed

subsection \<open>Fees that do not parse\<close>

lemma subseq_set_mono: "subseq xs ys \<Longrightarrow> set xs \<subseteq> set ys"
  by (induction rule: list_emb.induct) auto

lemma fee_col_columns: "columns a = columns b \<Longrightarrow> fee_col a = fee_col b"
  by (simp add: fee_col_def)

lemma fee_val_unparsable: "py_int (remove_char (CHR '','') x) = None \<Longrightarrow> fee_val x = 10 ^ 9"
  by (simp add: fee_val_def)

lemma rows_fee_filter_bound:
  assumes "(i, cs) \<in> set (rows (fee_filter (Some m) out))"
    and "m \<noteq> 0" and "fee_col out \<in> set (columns out)"
  shows "fee_val (get (as_series (columns out) cs) (fee_col out) '''') \<le> m"
  using assms by (auto simp: fee_filter_def rows_select_rows)

text \<open>
  C4. A fee that does not parse counts as \<open>10 ^ 9\<close>, not as an unbounded fee: with a
  ceiling of \<open>10 ^ 9\<close> the row with fee \<open>N/A\<close> passes the fee filter.
\<close>

theorem C4_counterexample:
  "py_int (remove_char (CHR '','') ''N/A'') = None
   \<and> rows (apply_filters na_table None (Some 1000000000) None) = [(0, [''Plain'', ''N/A''])]"
  by code_simp

text \<open>
  C4, as amended: parsing a fee never fails, a fee that is not an integer has the value
  \<open>10 ^ 9\<close>; and for every fee ceiling that is not zero and is below \<open>10 ^ 9\<close>, on a table
  with a fee column, the row is not in the result of the filter stage.
\<close>

theorem C4_unparsable_fee_excluded_below_sentinel:
  assumes "(i, cs) \<in> set (rows df)"
    and "fee_col df \<in> set (columns df)"
    and "py_int (remove_char (CHR '','') (get (as_series (columns df) cs) (fee_col df) '''')) = None"
    and "m \<noteq> 0" and "m < 10 ^ 9"
  shows "fee_val (get (as_series (columns df) cs) (fee_col df) '''') = 10 ^ 9
         \<and> (i, cs) \<notin> set (rows (apply_filters df bank (Some m) categories))"
proof -
  let ?out = "bank_filter bank df"
  have v: "fee_val (get (as_series (columns df) cs) (fee_col df) '''') = 10 ^ 9"
    using assms(3) by (rule fee_val_unparsable)
  have col: "fee_col ?out = fee_col df" by (rule fee_col_columns) simp
  have "(i, cs) \<notin> set (rows (fee_filter (Some m) ?out))"
  proof
    assume "(i, cs) \<in> set (rows (fee_filter (Some m) ?out))"
    then have "fee_val (get (as_series (columns ?out) cs) (fee_col ?out) '''') \<le> m"
      using assms(2,4) by (intro rows_fee_filter_bound) (simp_all add: col)
    with v assms(5) show False by (simp add: col)
  qed
  moreover have "set (rows (apply_filters df bank (Some m) categories))
      \<subseteq> set (rows (fee_filter (Some m) ?out))"
    unfolding apply_filters_def by (rule subseq_set_mono [OF subseq_category_filter])
  ultimately show ?thesis using v by auto
qed

theorem C4_unparsable_fee_excluded_below_sentinel_witness:
  "(0, [''Plain'', ''N/A'']) \<in> set (rows na_table)
   \<and> fee_val ''N/A'' = 10 ^ 9
   \<and> (0, [''Plain'', ''N/A'']) \<notin> set (rows (apply_filters na_table (Some ''SBI'') (Some 1000) None))"
proof -
  have a: "(0, [''Plain'', ''N/A'']) \<in> set (rows na_table)" by (simp add: na_table_def)
  have b: "fee_col na_table \<in> set (columns na_table)" by (simp add: na_table_def fee_col_def)
  have g: "get (as_series (columns na_table) [''Plain'', ''N/A'']) (fee_col na_table) '''' = ''N/A''"
    by (simp add: na_table_def fee_col_def as_series_def get_def)
  have c: "py_int (remove_char (CHR '','')
      (get (as_series (columns na_table) [''Plain'', ''N/A'']) (fee_col na_table) '''')) = None"
    unfolding g by code_simp
  have d: "(1000::int) \<noteq> 0" and e: "(1000::int) < 10 ^ 9" by simp_all
  show ?thesis
    using C4_unparsable_fee_excluded_below_sentinel [OF a b c d e, of "Some ''SBI''" None] a
    by (simp add: g)
qed

subsection \<open>A bank that matches no row\<close>

lemma bank_filter_unmatched:
  assumes "\<forall>(i, cs) \<in> set (rows f). \<not> bank_match b (as_series (columns f) cs)"
  shows "bank_filter (Some b) f = f"
proof -
  have "filter (\<lambda>(i, cs). bank_match b (as_series (columns f) cs)) (rows f) = []"
    using assms by (auto simp: filter_empty_conv)
  then show ?thesis
    by (simp add: bank_filter_def Let_def select_rows_def empty_def)
qed

lemma bank_bonus_unmatched: "\<not> bank_match b r \<Longrightarrow> bank_bonus (Some b) r = bank_bonus None r"
  by (simp add: bank_bonus_def bank_match_def)

lemma map_zip_cong:
  assumes "\<And>x y. x \<in> set xs \<Longrightarrow> f (x, y) = g (x, y)"
  shows "map f (zip xs ys) = map g (zip xs ys)"
  using assms by (auto dest: set_zip_leftD)

lemma score_rows_unmatched:
  assumes "\<forall>(i, cs) \<in> set (rows base). \<not> bank_match b (as_series (columns base) cs)"
  shows "score_rows gs q (Some b) base = score_rows gs q None base"
proof -
  have "bank_bonus (Some b) (snd x) = bank_bonus None (snd x)" if "x \<in> set (iterrows base)" for x
  proof -
    from that obtain i cs where "(i, cs) \<in> set (rows base)"
      and x: "x = (i, as_series (columns base) cs)"
      by (auto simp: iterrows_def)
    with assms have "\<not> bank_match b (snd x)" by auto
    then show ?thesis by (rule bank_bonus_unmatched)
  qed
  then have "(\<lambda>((i, row), sim). (i, sim + keyword_bonus q row + bank_bonus (Some b) row)) (x, y)
      = (\<lambda>((i, row), sim). (i, sim + keyword_bonus q row + bank_bonus None row)) (x, y)"
    if "x \<in> set (iterrows base)" for x y
    using that by (cases x) auto
  then show ?thesis
    unfolding score_rows_def Let_def by (intro map_zip_cong)
qed

text \<open>
  C5. When no row's bank field contains the requested bank name (compared in lower
  case), search with that bank returns what search with no bank returns: the same frame,
  so the same records in the same order. The strict bank selection is empty, so the bank
  block keeps every row, and the bank bonus of every row is 0.
\<close>

theorem C5_unmatched_bank_is_no_op:
  assumes "\<forall>(i, cs) \<in> set (rows (retr_df self)).
             \<not> bank_match b (as_series (columns (retr_df self)) cs)"
  shows "search gs pr self q (Some b) m c kk = search gs pr self q None m c kk"
proof -
  let ?base = "search_base self None m c"
  have "apply_filters (retr_df self) (Some b) m c = apply_filters (retr_df self) None m c"
    using bank_filter_unmatched [OF assms] by (simp add: apply_filters_def bank_filter_def)
  then have base: "search_base self (Some b) m c = ?base"
    by (simp add: search_base_def)
  have "set (rows ?base) \<subseteq> set (rows (retr_df self))"
    by (rule subseq_set_mono [OF subseq_search_base])
  with assms have "\<forall>(i, cs) \<in> set (rows ?base). \<not> bank_match b (as_series (columns ?base) cs)"
    by auto
  then have "score_rows gs q (Some b) ?base = score_rows gs q None ?base"
    by (rule score_rows_unmatched)
  then have "top_k gs pr k' q (Some b) ?base = top_k gs pr k' q None ?base" for k'
    by (simp add: top_k_def diverse_def ranked_def)
  with base show ?thesis by (simp add: search_def)
qed

theorem C5_unmatched_bank_is_no_op_witness:
  "\<not> bank_match ''XYZ'' (as_series [''Card Name'', ''Bank Name'', ''Annual Fee''] [''Gold'', ''SBI'', ''5000''])
   \<and> search overlap_scores same_name_ratio (LocalRetriever (Some fee_table) 10) ''gold'' (Some ''XYZ'') None None None
     = search overlap_scores same_name_ratio (LocalRetriever (Some fee_table) 10) ''gold'' None None None None"
proof -
  let ?r = "LocalRetriever (Some fee_table) 10"
  have d: "retr_df ?r = Frame [''Card Name'', ''Bank Name'', ''Annual Fee''] [(0, [''Gold'', ''SBI'', ''5000''])]"
    by code_simp
  have n: "\<not> bank_match ''XYZ'' (as_series [''Card Name'', ''Bank Name'', ''Annual Fee''] [''Gold'', ''SBI'', ''5000''])"
    by code_simp
  have h: "\<forall>(i, cs) \<in> set (rows (retr_df ?r)). \<not> bank_match ''XYZ'' (as_series (columns (retr_df ?r)) cs)"
    unfolding d using n by simp
  from C5_unmatched_bank_is_no_op [OF h] n show ?thesis by (intro conjI)
qed


subsection \<open>The keyword bonus\<close>

text \<open>
  C8. The final score is the lexical score plus the keyword bonus plus the bank bonus
  (\<open>score_rows\<close>), but \<^verbatim>\<open>_keyword_bonus\<close> reads the name, description, benefits and tags
  under their title-case column names only, where \<^verbatim>\<open>_row_text\<close> and \<^verbatim>\<open>_bank_bonus\<close> read
  either naming scheme. For a card of a snake-case table whose description and the
  query both say \<open>cashback\<close> the bonus is 0; for the same card in a title-case table it is
  0.05.
\<close>

theorem C8_keyword_bonus_ignores_snake_case_columns:
  "keyword_bonus ''cashback card'' snake_row = 0
   \<and> keyword_bonus ''cashback card'' title_row = 0.05"
  by code_simp


subsection \<open>The cache\<close>

lemma vector_store_init_cached:
  assumes "cache s (cache_key (resolve_path w p)) = Some a"
  shows "vector_store_init w False p s
     = (\<lparr>data_path = resolve_path w p, vs_df = load_df w (resolve_path w p), vs_retriever = a\<rparr>, s)"
  using assms by (simp add: vector_store_init_def Let_def)

lemma vector_store_init_build:
  assumes "force \<or> cache s (cache_key (resolve_path w p)) = None"
  shows "vector_store_init w force p s
     = (\<lparr>data_path = resolve_path w p, vs_df = load_df w (resolve_path w p),
         vs_retriever = length (heap s)\<rparr>,
        \<lparr>heap = heap s @ [LocalRetriever (Some (no_nulls (load_df w (resolve_path w p)))) 10],
         cache = (cache s)(cache_key (resolve_path w p) \<mapsto> length (heap s))\<rparr>)"
  using assms by (auto simp: vector_store_init_def Let_def)

lemma vector_store_init_caches:
  "cache (snd (vector_store_init w force p s)) (cache_key (resolve_path w p))
     = Some (vs_retriever (fst (vector_store_init w force p s)))"
proof (cases "force \<or> cache s (cache_key (resolve_path w p)) = None")
  case True
  then show ?thesis by (simp add: vector_store_init_build)
next
  case False
  then obtain a where "cache s (cache_key (resolve_path w p)) = Some a" and "\<not> force" by auto
  then show ?thesis by (simp add: vector_store_init_cached)
qed

text \<open>
  C9. After a vector store has been constructed for a path, constructing one again for
  the same path with no \<^verbatim>\<open>force_reindex\<close> returns the retriever object of the cache and
  leaves heap and cache as they are: nothing is built. Constructing it with
  \<^verbatim>\<open>force_reindex\<close> allocates a new retriever, built from the file as it is then, and
  stores it in the cache under the path's key.
\<close>

theorem C9_cache_reuse_and_forced_rebuild:
  assumes "vector_store_init w1 force p1 s0 = (vs1, s1)"
    and "resolve_path w2 p2 = resolve_path w1 p1"
    and "vector_store_init w2 False p2 s1 = (vs2, s2)"
    and "vector_store_init w2 True p2 s1 = (vs3, s3)"
  shows "vs_retriever vs2 = vs_retriever vs1 \<and> s2 = s1
         \<and> vs_retriever vs3 = length (heap s1)
         \<and> heap s3 = heap s1 @ [LocalRetriever (Some (no_nulls (load_df w2 (resolve_path w2 p2)))) 10]
         \<and> cache s3 = (cache s1)(cache_key (resolve_path w2 p2) \<mapsto> length (heap s1))"
proof -
  have "cache s1 (cache_key (resolve_path w1 p1)) = Some (vs_retriever vs1)"
    using vector_store_init_caches [of w1 force p1 s0] assms(1) by simp
  then have "cache s1 (cache_key (resolve_path w2 p2)) = Some (vs_retriever vs1)"
    by (simp add: assms(2))
  then have "vector_store_init w2 False p2 s1
     = (\<lparr>data_path = resolve_path w2 p2, vs_df = load_df w2 (resolve_path w2 p2),
         vs_retriever = vs_retriever vs1\<rparr>, s1)"
    by (rule vector_store_init_cached)
  with assms(3) have a: "vs_retriever vs2 = vs_retriever vs1 \<and> s2 = s1" by auto
  have "vector_store_init w2 True p2 s1
     = (\<lparr>data_path = resolve_path w2 p2, vs_df = load_df w2 (resolve_path w2 p2),
         vs_retriever = length (heap s1)\<rparr>,
        \<lparr>heap = heap s1 @ [LocalRetriever (Some (no_nulls (load_df w2 (resolve_path w2 p2)))) 10],
         cache = (cache s1)(cache_key (resolve_path w2 p2) \<mapsto> length (heap s1))\<rparr>)"
    by (rule vector_store_init_build) simp
  with assms(4) have "vs_retriever vs3 = length (heap s1)
         \<and> heap s3 = heap s1 @ [LocalRetriever (Some (no_nulls (load_df w2 (resolve_path w2 p2)))) 10]
         \<and> cache s3 = (cache s1)(cache_key (resolve_path w2 p2) \<mapsto> length (heap s1))"
    by auto
  with a show ?thesis by simp
qed

theorem C9_cache_reuse_and_forced_rebuild_witness:
  "vs_retriever (fst (vector_store_init one_file_world False (Some ''cards.csv'')
       (snd (vector_store_init one_file_world False (Some ''cards.csv'') fresh_state))))
     = vs_retriever (fst (vector_store_init one_file_world False (Some ''cards.csv'') fresh_state))
   \<and> snd (vector_store_init one_file_world False (Some ''cards.csv'')
       (snd (vector_store_init one_file_world False (Some ''cards.csv'') fresh_state)))
     = snd (vector_store_init one_file_world False (Some ''cards.csv'') fresh_state)
   \<and> vs_retriever (fst (vector_store_init one_file_world True (Some ''cards.csv'')
       (snd (vector_store_init one_file_world False (Some ''cards.csv'') fresh_state))))
     = 1"
proof -
  let ?w = one_file_world and ?p = "Some ''cards.csv''"
  let ?i1 = "vector_store_init ?w False ?p fresh_state"
  let ?i2 = "vector_store_init ?w False ?p (snd ?i1)"
  let ?i3 = "vector_store_init ?w True ?p (snd ?i1)"
  have h1: "?i1 = (fst ?i1, snd ?i1)" and h3: "?i2 = (fst ?i2, snd ?i2)"
    and h4: "?i3 = (fst ?i3, snd ?i3)" by simp_all
  have h2: "resolve_path ?w ?p = resolve_path ?w ?p" by simp
  have l: "length (heap (snd ?i1)) = 1"
    by (simp add: vector_store_init_def Let_def fresh_state_def)
  from C9_cache_reuse_and_forced_rebuild [OF h1 h2 h3 h4] l show ?thesis by simp
qed

subsection \<open>Deduplication and order of the result\<close>

lemma pick_reject:
  "\<exists>s\<in>seen. pr (card_name base i) s \<ge> 92
   \<Longrightarrow> pick pr kk base (i # js) seen picked = pick pr kk base js seen picked"
  by (simp add: Let_def)


lemma pick_keep:
  "\<not> (\<exists>s\<in>seen. pr (card_name base i) s \<ge> 92)
   \<Longrightarrow> \<not> int (length (picked @ [i])) \<ge> max (kk * 2) 12
   \<Longrightarrow> pick pr kk base (i # js) seen picked
       = pick pr kk base js (insert (card_name base i) seen) (picked @ [i])"
  by (auto simp: Let_def)

lemma pick_subseq: "\<exists>ys. pick pr kk base js seen picked = picked @ ys \<and> subseq ys js"
proof (induction js arbitrary: seen picked)
  case Nil
  show ?case by simp
next
  case (Cons i js)
  from Cons.IH [of seen picked] obtain ys
    where a: "pick pr kk base js seen picked = picked @ ys" "subseq ys js" by blast
  from Cons.IH [of "insert (card_name base i) seen" "picked @ [i]"] obtain zs
    where b: "pick pr kk base js (insert (card_name base i) seen) (picked @ [i]) = (picked @ [i]) @ zs"
      "subseq zs js" by blast
  have c: "subseq ys (i # js)" using a(2) by (rule list_emb_Cons)
  have d: "subseq (i # zs) (i # js)" using b(2) by simp
  have e: "subseq [i] (i # js)" by simp
  show ?case
  proof (cases "\<exists>s\<in>seen. pr (card_name base i) s \<ge> 92")
    case True
    then show ?thesis using a(1) c by (simp del: pick.simps add: pick_reject [where pr = pr, OF True])
  next
    case False
    show ?thesis
    proof (cases "int (length (picked @ [i])) \<ge> max (kk * 2) 12")
      case True
      with False have "pick pr kk base (i # js) seen picked = picked @ [i]"
        by (simp add: Let_def)
      with e show ?thesis by blast
    next
      case n: False
      with False have "pick pr kk base (i # js) seen picked = picked @ (i # zs)"
        using b(1) by (simp del: pick.simps add: pick_keep [where pr = pr, OF False n])
      with d show ?thesis by blast
    qed
  qed
qed

lemma subseq_diverse: "subseq (diverse gs pr kk q b base) (map fst (ranked gs q b base))"
  using pick_subseq [of pr kk base "map fst (ranked gs q b base)" "{}" "[]"]
  by (auto simp: diverse_def)











lemma first_diverse:
  "ranked gs q b base \<noteq> [] \<Longrightarrow> fst (hd (ranked gs q b base)) \<in> set (diverse gs pr kk q b base)"
proof -
  assume "ranked gs q b base \<noteq> []"
  then obtain x xs where e: "ranked gs q b base = x # xs" by (cases "ranked gs q b base") auto
  have "fst x \<in> set (pick pr kk base (fst x # map fst xs) {} [])" by (rule pick_first)
  then show ?thesis by (simp add: diverse_def e)
qed

lemma insort_key_stable_wrt:
  fixes f :: "'a \<Rightarrow> 'b::linorder"
  assumes "sorted_wrt (\<lambda>x y. f x < f y \<or> (f x = f y \<and> Rel x y)) ys"
    and "\<forall>y\<in>set ys. Rel x y"
  shows "sorted_wrt (\<lambda>x y. f x < f y \<or> (f x = f y \<and> Rel x y)) (insort_key f x ys)"
  using assms
proof (induction ys)
  case Nil
  then show ?case by simp
next
  case (Cons y ys)
  show ?case
  proof (cases "f x \<le> f y")
    case True
    have "f x < f z \<or> (f x = f z \<and> Rel x z)" if "z \<in> set (y # ys)" for z
    proof -
      have "f y \<le> f z" using that Cons.prems(1) by auto
      with True have "f x \<le> f z" by simp
      moreover have "Rel x z" using that Cons.prems(2) by auto
      ultimately show ?thesis by auto
    qed
    then show ?thesis using True Cons.prems(1) by simp
  next
    case False
    have s: "sorted_wrt (\<lambda>x y. f x < f y \<or> (f x = f y \<and> Rel x y)) (insort_key f x ys)"
      using Cons.IH Cons.prems by simp
    have "f y < f z \<or> (f y = f z \<and> Rel y z)" if "z \<in> set (insort_key f x ys)" for z
      using that False Cons.prems(1) by (auto simp: set_insort_key)
    then show ?thesis using False s by simp
  qed
qed

lemma sort_key_stable_wrt:
  fixes f :: "'a \<Rightarrow> 'b::linorder"
  assumes "sorted_wrt Rel xs"
  shows "sorted_wrt (\<lambda>x y. f x < f y \<or> (f x = f y \<and> Rel x y)) (sort_key f xs)"
  using assms
proof (induction xs)
  case Nil
  show ?case by simp
next
  case (Cons x xs)
  have "sorted_wrt (\<lambda>x y. f x < f y \<or> (f x = f y \<and> Rel x y)) (insort_key f x (sort_key f xs))"
    by (rule insort_key_stable_wrt) (use Cons in simp_all)
  then show ?case by simp
qed

lemma sorted_wrt_subseq: "subseq xs ys \<Longrightarrow> sorted_wrt P ys \<Longrightarrow> sorted_wrt P xs"
proof (induction rule: list_emb.induct)
  case (list_emb_Nil ys)
  show ?case by simp
next
  case (list_emb_Cons xs ys y)
  then show ?case by simp
next
  case (list_emb_Cons2 x y xs ys)
  have "set xs \<subseteq> set ys" using list_emb_Cons2(2) by (rule subseq_set_mono)
  then show ?case using list_emb_Cons2 by auto
qed

lemma labels_filter_label:
  "distinct (map fst rs) \<Longrightarrow> i \<in> fst ` set rs
   \<Longrightarrow> map fst (filter (\<lambda>(j, cs). j = i) rs) = [i]"
proof (induction rs)
  case Nil
  then show ?case by simp
next
  case (Cons r rs)
  obtain a cs where r: "r = (a, cs)" by (cases r)
  show ?case
  proof (cases "a = i")
    case True
    with Cons.prems(1) r have "i \<notin> fst ` set rs" by simp
    then have "filter (\<lambda>(j, cs). j = i) rs = []" by (force simp: filter_empty_conv)
    with True r show ?thesis by simp
  next
    case False
    with Cons r show ?thesis by auto
  qed
qed

lemma labels_loc_list:
  assumes "distinct (map fst (rows base))" and "set labels \<subseteq> fst ` set (rows base)"
  shows "map fst (rows (loc_list base labels)) = labels"
  using assms(2)
proof (induction labels)
  case Nil
  show ?case by (simp add: loc_list_def)
next
  case (Cons i labels)
  then have "map fst (rows (loc_list base labels)) = labels" by simp
  moreover have "map fst (filter (\<lambda>(j, cs). j = i) (rows base)) = [i]"
    using assms(1) Cons.prems by (intro labels_filter_label) auto
  ultimately show ?case by (simp add: loc_list_def)
qed

lemma final_score_ranked:
  assumes "distinct (map fst (rows base))" and "x \<in> set (ranked gs q b base)"
  shows "final_score gs q b base (fst x) = snd x"
proof -
  have d: "distinct (map fst (score_rows gs q b base))"
    unfolding map_fst_score_rows using assms(1) by (rule distinct_take)
  have "(fst x, snd x) \<in> set (score_rows gs q b base)" using assms(2) by (simp add: set_ranked)
  with d have "map_of (score_rows gs q b base) (fst x) = Some (snd x)" by simp
  then show ?thesis by (simp add: final_score_def)
qed

lemma ranked_stable:
  assumes "sorted_wrt (<) (map fst (rows base))"
  shows "sorted_wrt (\<lambda>x y. snd x > snd y \<or> (snd x = snd y \<and> fst x < fst y))
           (ranked gs q b base)"
proof -
  have "sorted_wrt (<) (map fst (score_rows gs q b base))"
    unfolding map_fst_score_rows using assms by (rule sorted_wrt_take)
  then have "sorted_wrt (\<lambda>x y. fst x < fst y) (score_rows gs q b base)"
    by (simp add: sorted_wrt_map)
  then have "sorted_wrt (\<lambda>x y. - snd x < - snd y \<or> (- snd x = - snd y \<and> fst x < fst y))
               (sort_key (\<lambda>x. - snd x) (score_rows gs q b base))"
    by (rule sort_key_stable_wrt)
  then show ?thesis by (simp add: ranked_def sort_rows_def)
qed

lemma labels_ranked_stable:
  assumes "sorted_wrt (<) (map fst (rows base))"
  shows "sorted_wrt (\<lambda>i j. final_score gs q b base i > final_score gs q b base j
                        \<or> (final_score gs q b base i = final_score gs q b base j \<and> i < j))
           (map fst (ranked gs q b base))"
proof -
  have d: "distinct (map fst (rows base))" using assms by (simp add: strict_sorted_iff)
  have "sorted_wrt (\<lambda>x y. final_score gs q b base (fst x) > final_score gs q b base (fst y)
                        \<or> (final_score gs q b base (fst x) = final_score gs q b base (fst y)
                            \<and> fst x < fst y))
           (ranked gs q b base)"
    using ranked_stable [OF assms, of gs q b]
    by (rule sorted_wrt_mono_rel [rotated]) (simp add: final_score_ranked [OF d])
  then show ?thesis by (simp add: sorted_wrt_map)
qed

lemma labels_top_k:
  assumes "distinct (map fst (rows base))"
  shows "subseq (map fst (rows (top_k gs pr kk q b base))) (map fst (ranked gs q b base))"
proof -
  have s: "subseq (diverse gs pr kk q b base) (map fst (ranked gs q b base))"
    by (rule subseq_diverse)
  then have "set (diverse gs pr kk q b base) \<subseteq> set (map fst (ranked gs q b base))"
    by (rule subseq_set_mono)
  also have "\<dots> \<subseteq> fst ` set (rows base)" using labels_ranked [of gs q b base] by simp
  finally have "map fst (rows (loc_list base (diverse gs pr kk q b base))) = diverse gs pr kk q b base"
    using assms by (intro labels_loc_list)
  then have "\<exists>n. map fst (rows (top_k gs pr kk q b base)) = take n (diverse gs pr kk q b base)"
    by (auto simp: top_k_def head_def take_map [symmetric])
  then obtain n where "map fst (rows (top_k gs pr kk q b base)) = take n (diverse gs pr kk q b base)"
    by blast
  then have "prefix (map fst (rows (top_k gs pr kk q b base))) (diverse gs pr kk q b base)"
    by (simp add: take_is_prefix)
  then have "subseq (map fst (rows (top_k gs pr kk q b base))) (diverse gs pr kk q b base)"
    by (rule prefix_imp_subseq)
  then show ?thesis using s by (rule subseq_order.trans)
qed

text \<open>
  C7. The labels of the rows that \<^verbatim>\<open>search\<close> returns are ordered by descending final
  score, and of two rows with the same score the one with the smaller index label, that is
  the earlier row of the dataset, comes first. The labels of the dataset are increasing, as
  those of the \<^verbatim>\<open>RangeIndex\<close> that \<^verbatim>\<open>read_csv\<close> builds.
\<close>

theorem C7_ordered_by_score_stable:
  assumes "sorted_wrt (<) (map fst (rows (retr_df self)))"
  shows "sorted_wrt
           (\<lambda>i j. final_score gs q b (search_base self b m c) i
                     > final_score gs q b (search_base self b m c) j
                 \<or> (final_score gs q b (search_base self b m c) i
                      = final_score gs q b (search_base self b m c) j \<and> i < j))
           (map fst (rows (search gs pr self q b m c kk)))"
proof (cases "empty (retr_df self) \<or> retr_bm25 self = None")
  case True
  then show ?thesis by (simp add: search_def)
next
  case False
  have "subseq (map fst (rows (search_base self b m c))) (map fst (rows (retr_df self)))"
    using subseq_search_base by (rule subseq_map)
  then have s: "sorted_wrt (<) (map fst (rows (search_base self b m c)))"
    using assms by (rule sorted_wrt_subseq)
  then have d: "distinct (map fst (rows (search_base self b m c)))"
    by (simp add: strict_sorted_iff)
  have "subseq (map fst (rows (top_k gs pr (effective_k self kk) q b (search_base self b m c))))
          (map fst (ranked gs q b (search_base self b m c)))"
    using d by (rule labels_top_k)
  then have "sorted_wrt
           (\<lambda>i j. final_score gs q b (search_base self b m c) i
                     > final_score gs q b (search_base self b m c) j
                 \<or> (final_score gs q b (search_base self b m c) i
                      = final_score gs q b (search_base self b m c) j \<and> i < j))
           (map fst (rows (top_k gs pr (effective_k self kk) q b (search_base self b m c))))"
    using labels_ranked_stable [OF s] by (rule sorted_wrt_subseq)
  with False show ?thesis by (simp add: search_def)
qed


theorem C7_ordered_by_score_stable_witness:
  "sorted_wrt (<) (map fst (rows (retr_df (LocalRetriever (Some tie_table) 5))))
   \<and> map fst (rows (search overlap_scores same_name_ratio (LocalRetriever (Some tie_table) 5)
         ''fuel'' None None None None)) = [3, 1, 2, 0]
   \<and> map (final_score overlap_scores ''fuel'' None
         (search_base (LocalRetriever (Some tie_table) 5) None None None)) [3, 1, 2, 0]
       = [2.05, 1.05, 1.05, 0]
   \<and> sorted_wrt
        (\<lambda>i j. final_score overlap_scores ''fuel'' None
                  (search_base (LocalRetriever (Some tie_table) 5) None None None) i
                > final_score overlap_scores ''fuel'' None
                    (search_base (LocalRetriever (Some tie_table) 5) None None None) j
              \<or> (final_score overlap_scores ''fuel'' None
                    (search_base (LocalRetriever (Some tie_table) 5) None None None) i
                   = final_score overlap_scores ''fuel'' None
                       (search_base (LocalRetriever (Some tie_table) 5) None None None) j
                  \<and> i < j))
        (map fst (rows (search overlap_scores same_name_ratio (LocalRetriever (Some tie_table) 5)
           ''fuel'' None None None None)))"
proof -
  have a: "sorted_wrt (<) (map fst (rows (retr_df (LocalRetriever (Some tie_table) 5))))"
    by code_simp
  have b: "map fst (rows (search overlap_scores same_name_ratio (LocalRetriever (Some tie_table) 5)
         ''fuel'' None None None None)) = [3, 1, 2, 0]"
    by code_simp
  have c: "map (final_score overlap_scores ''fuel'' None
         (search_base (LocalRetriever (Some tie_table) 5) None None None)) [3, 1, 2, 0]
       = [2.05, 1.05, 1.05, 0]"
    by code_simp
  note t = C7_ordered_by_score_stable [where self = "LocalRetriever (Some tie_table) 5"
      and gs = overlap_scores and pr = same_name_ratio and q = "''fuel''" and b = None
      and m = None and c = None and kk = None, OF a]
  show ?thesis by (rule conjI [OF a conjI [OF b conjI [OF c t]]])
qed

subsection \<open>The pool of the diversity loop\<close>














subsection \<open>Column names\<close>

lemma rename_map_check:
  "list_all (\<lambda>(T, n). rename_col T = n \<and> map_of rename_map n = None
       \<and> list_all (\<lambda>(T', n'). (n' = n \<longrightarrow> T' = T) \<and> T' \<noteq> n) rename_map) rename_map"
  by code_simp

lemma rename_col_title: "(T, n) \<in> set rename_map \<Longrightarrow> rename_col T = n"
  using rename_map_check by (auto simp: list_all_iff)

lemma rename_col_canonical: "(T, n) \<in> set rename_map \<Longrightarrow> rename_col n = n"
  using rename_map_check by (auto simp: list_all_iff rename_col_def)

lemma rename_map_inj:
  "(T, n) \<in> set rename_map \<Longrightarrow> (T', n) \<in> set rename_map \<Longrightarrow> T' = T"
  using rename_map_check by (auto simp: list_all_iff)

lemma rename_map_disjoint:
  "(T, n) \<in> set rename_map \<Longrightarrow> (T', n') \<in> set rename_map \<Longrightarrow> T' \<noteq> n"
  using rename_map_check by (fastforce simp: list_all_iff)

lemma rename_col_eq_canonical:
  assumes "(T, n) \<in> set rename_map"
  shows "rename_col x = n \<longleftrightarrow> x = T \<or> x = n"
proof (cases "map_of rename_map x")
  case None
  then have "rename_col x = x" by (simp add: rename_col_def)
  moreover have "x \<noteq> T"
  proof
    assume "x = T"
    with None have "T \<notin> fst ` set rename_map" by (simp add: map_of_eq_None_iff)
    with assms show False by force
  qed
  ultimately show ?thesis by auto
next
  case (Some n')
  then have m: "(x, n') \<in> set rename_map" by (rule map_of_SomeD)
  have r: "rename_col x = n'" using Some by (simp add: rename_col_def)
  have "x \<noteq> n" using assms m by (rule rename_map_disjoint)
  moreover have "n' = n \<longleftrightarrow> x = T"
  proof
    assume "n' = n"
    with m have "(x, n) \<in> set rename_map" by simp
    with assms show "x = T" by (rule rename_map_inj)
  next
    assume "x = T"
    with r have "rename_col T = n'" by simp
    with rename_col_title [OF assms] show "n' = n" by simp
  qed
  ultimately show ?thesis using r by simp
qed

lemma rename_col_idem: "rename_col (rename_col x) = rename_col x"
proof (cases "map_of rename_map x")
  case None
  then show ?thesis by (simp add: rename_col_def)
next
  case (Some n)
  then have "(x, n) \<in> set rename_map" by (rule map_of_SomeD)
  then have "rename_col n = n" by (rule rename_col_canonical)
  moreover have "rename_col x = n" using Some by (simp add: rename_col_def)
  ultimately show ?thesis by simp
qed

lemma columns_head [simp]: "columns (head n f) = columns f"
  by (simp add: head_def)

lemma columns_loc_list [simp]: "columns (loc_list f labels) = columns f"
  by (simp add: loc_list_def)

lemma columns_rename_columns [simp]: "columns (rename_columns f) = map rename_col (columns f)"
  by (simp add: rename_columns_def)

lemma columns_top_k: "columns (top_k gs pr kk q b base) = map rename_col (columns base)"
  by (simp add: top_k_def)

lemma columns_search:
  "\<not> empty (retr_df self) \<Longrightarrow> retr_bm25 self \<noteq> None
   \<Longrightarrow> columns (search gs pr self q b m c kk) = map rename_col (columns (retr_df self))"
  by (auto simp: search_def columns_top_k)

lemma set_rows_head: "set (rows (head n f)) \<subseteq> set (rows f)"
  by (auto simp: head_def dest: in_set_takeD)

lemma set_rows_loc_list: "set (rows (loc_list f labels)) \<subseteq> set (rows f)"
  by (auto simp: loc_list_def)

lemma set_rows_top_k: "set (rows (top_k gs pr kk q b base)) \<subseteq> set (rows base)"
  using set_rows_head [of kk "loc_list base (diverse gs pr kk q b base)"]
    set_rows_loc_list [of base "diverse gs pr kk q b base"]
  by (simp add: top_k_def)

lemma set_rows_search: "set (rows (search gs pr self q b m c kk)) \<subseteq> set (rows (retr_df self))"
proof (cases "empty (retr_df self) \<or> retr_bm25 self = None")
  case True
  then show ?thesis by (simp add: search_def)
next
  case False
  have "set (rows (search_base self b m c)) \<subseteq> set (rows (retr_df self))"
    using subseq_search_base by (rule subseq_set_mono)
  with set_rows_top_k [of gs pr "effective_k self kk" q b "search_base self b m c"] False
  show ?thesis by (simp add: search_def)
qed

lemma canonical_field_present:
  assumes "\<not> empty (retr_df self)" and "retr_bm25 self \<noteq> None" and "(T, n) \<in> set rename_map"
  shows "n \<in> set (columns (search gs pr self q b m c kk))
         \<longleftrightarrow> T \<in> set (columns (retr_df self)) \<or> n \<in> set (columns (retr_df self))"
proof -
  have "n \<in> set (map rename_col (columns (retr_df self)))
        \<longleftrightarrow> (\<exists>x\<in>set (columns (retr_df self)). rename_col x = n)"
    by auto
  also have "\<dots> \<longleftrightarrow> (\<exists>x\<in>set (columns (retr_df self)). x = T \<or> x = n)"
    by (simp only: rename_col_eq_canonical [OF assms(3)])
  also have "\<dots> \<longleftrightarrow> T \<in> set (columns (retr_df self)) \<or> n \<in> set (columns (retr_df self))"
    by blast
  finally show ?thesis by (simp only: columns_search [OF assms(1,2)])
qed

lemma rename_map_mem:
  "(''Card Name'', ''card_name'') \<in> set rename_map"
  "(''Bank Name'', ''bank_name'') \<in> set rename_map"
  "(''Card Type'', ''card_type'') \<in> set rename_map"
  "(''Tags'', ''tags'') \<in> set rename_map"
  "(''Description'', ''description'') \<in> set rename_map"
  "(''Eligibility'', ''eligibility'') \<in> set rename_map"
  "(''Annual Fee'', ''annual_fee'') \<in> set rename_map"
  "(''Key Benefits'', ''key_benefits'') \<in> set rename_map"
  by (simp_all add: rename_map_def)


lemma map_of_zip_notin: "k \<notin> set xs \<Longrightarrow> map_of (zip xs ys) k = None"
  by (auto simp: map_of_eq_None_iff dest: set_zip_leftD)

lemma map_of_zip_map_inj:
  "\<forall>x\<in>set cols. g x = g t \<longrightarrow> x = t
   \<Longrightarrow> map_of (zip (map g cols) cs) (g t) = map_of (zip cols cs) t"
proof (induction cols arbitrary: cs)
  case Nil
  show ?case by simp
next
  case (Cons a cols)
  show ?case
  proof (cases cs)
    case Nil
    then show ?thesis by simp
  next
    case (Cons v vs)
    have "map_of (zip (map g cols) vs) (g t) = map_of (zip cols vs) t"
      using Cons.prems by (intro Cons.IH) simp
    moreover have "g a = g t \<longleftrightarrow> a = t" using Cons.prems by auto
    ultimately show ?thesis using Cons by auto
  qed
qed

lemma title_not_renamed:
  assumes "set cols \<subseteq> fst ` set rename_map" and "(T, n) \<in> set rename_map"
  shows "T \<notin> set (map rename_col cols)"
proof
  assume "T \<in> set (map rename_col cols)"
  then obtain x where x: "x \<in> set cols" "rename_col x = T" by auto
  with assms(1) obtain n' where m: "(x, n') \<in> set rename_map" by force
  then have "rename_col x = n'" by (rule rename_col_title)
  with x(2) have "T = n'" by simp
  moreover have "T \<noteq> n'" using m assms(2) by (rule rename_map_disjoint)
  ultimately show False by simp
qed

lemma canonical_not_title:
  assumes "set cols \<subseteq> fst ` set rename_map" and "(T, n) \<in> set rename_map"
  shows "n \<notin> set cols"
proof
  assume "n \<in> set cols"
  with assms(1) obtain n' where m: "(n, n') \<in> set rename_map" by force
  have "n \<noteq> n" using assms(2) m by (rule rename_map_disjoint)
  then show False by simp
qed

lemma map_of_twin:
  assumes "set cols \<subseteq> fst ` set rename_map" and "(T, n) \<in> set rename_map"
  shows "map_of (zip (map rename_col cols) cs) n = map_of (zip cols cs) T"
proof -
  have "x = T" if "x \<in> set cols" "rename_col x = rename_col T" for x
  proof -
    from that(2) have "rename_col x = n" by (simp only: rename_col_title [OF assms(2)])
    then have "x = T \<or> x = n" by (simp only: rename_col_eq_canonical [OF assms(2)])
    moreover have "x \<noteq> n" using canonical_not_title [OF assms] that(1) by blast
    ultimately show ?thesis by blast
  qed
  then have "\<forall>x\<in>set cols. rename_col x = rename_col T \<longrightarrow> x = T" by blast
  then have "map_of (zip (map rename_col cols) cs) (rename_col T) = map_of (zip cols cs) T"
    by (rule map_of_zip_map_inj)
  then show ?thesis by (simp only: rename_col_title [OF assms(2)])
qed

lemma get_twin:
  assumes "set cols \<subseteq> fst ` set rename_map" and "(T, n) \<in> set rename_map"
  shows "get (as_series (map rename_col cols) cs) T (get (as_series (map rename_col cols) cs) n d)
         = get (as_series cols cs) T (get (as_series cols cs) n d)"
proof -
  have a: "map_of (zip (map rename_col cols) cs) T = None"
    using title_not_renamed [OF assms] by (rule map_of_zip_notin)
  have b: "map_of (zip cols cs) n = None"
    using canonical_not_title [OF assms] by (rule map_of_zip_notin)
  show ?thesis
    unfolding get_def as_series_def a b map_of_twin [OF assms]
    by (simp split: option.splits)
qed

lemma get_twin_canonical:
  assumes "set cols \<subseteq> fst ` set rename_map" and "(T, n) \<in> set rename_map"
  shows "get (as_series (map rename_col cols) cs) n d = get (as_series cols cs) T d"
  unfolding get_def as_series_def map_of_twin [OF assms] by (rule refl)

lemma bank_field_twin:
  assumes "set cols \<subseteq> fst ` set rename_map"
  shows "bank_field (as_series (map rename_col cols) cs) = bank_field (as_series cols cs)"
  unfolding bank_field_def using assms rename_map_mem(2) by (rule get_twin)

lemma row_text_twin:
  assumes "set cols \<subseteq> fst ` set rename_map"
  shows "row_text (as_series (map rename_col cols) cs) = row_text (as_series cols cs)"
  unfolding row_text_def
  by (simp only: get_twin [OF assms rename_map_mem(1)] get_twin [OF assms rename_map_mem(2)]
        get_twin [OF assms rename_map_mem(3)] get_twin [OF assms rename_map_mem(4)]
        get_twin [OF assms rename_map_mem(5)] get_twin [OF assms rename_map_mem(6)]
        get_twin [OF assms rename_map_mem(8)])

lemma bank_bonus_twin:
  assumes "set cols \<subseteq> fst ` set rename_map"
  shows "bank_bonus b (as_series (map rename_col cols) cs) = bank_bonus b (as_series cols cs)"
  by (simp only: bank_bonus_def bank_field_twin [OF assms])

lemma empty_rename_columns [simp]: "empty (rename_columns f) = empty f"
  by (simp add: empty_def rename_columns_def)

lemma select_rows_twin:
  "(\<And>cs. p' (as_series (map rename_col (columns f)) cs) = p (as_series (columns f) cs))
   \<Longrightarrow> select_rows p' (rename_columns f) = rename_columns (select_rows p f)"
  by (simp add: select_rows_def rename_columns_def)

lemma bank_filter_twin:
  assumes "set (columns f) \<subseteq> fst ` set rename_map"
  shows "bank_filter b (rename_columns f) = rename_columns (bank_filter b f)"
proof -
  have "select_rows (bank_match x) (rename_columns f) = rename_columns (select_rows (bank_match x) f)"
    for x
    by (rule select_rows_twin) (simp add: bank_match_def bank_field_twin [OF assms])
  then show ?thesis by (simp add: bank_filter_def Let_def split: option.splits)
qed

lemma fee_filter_twin:
  assumes "set (columns f) \<subseteq> fst ` set rename_map"
  shows "fee_filter m (rename_columns f) = rename_columns (fee_filter m f)"
proof -
  have p: "(''Annual Fee'', ''annual_fee'') \<in> set rename_map" by (rule rename_map_mem)
  have a: "''Annual Fee'' \<notin> set (map rename_col (columns f))"
    using assms p by (rule title_not_renamed)
  have b: "''annual_fee'' \<notin> set (columns f)" using assms p by (rule canonical_not_title)
  have c: "fee_col (rename_columns f) = ''annual_fee''" using a by (simp add: fee_col_def)
  have d: "''annual_fee'' \<in> set (map rename_col (columns f)) \<longleftrightarrow> ''Annual Fee'' \<in> set (columns f)"
  proof
    assume "''annual_fee'' \<in> set (map rename_col (columns f))"
    then obtain x where x: "x \<in> set (columns f)" "rename_col x = ''annual_fee''" by auto
    then have "x = ''Annual Fee'' \<or> x = ''annual_fee''"
      by (simp only: rename_col_eq_canonical [OF p])
    with x(1) b show "''Annual Fee'' \<in> set (columns f)" by auto
  next
    assume "''Annual Fee'' \<in> set (columns f)"
    then have "rename_col ''Annual Fee'' \<in> set (map rename_col (columns f))" by simp
    then show "''annual_fee'' \<in> set (map rename_col (columns f))"
      by (simp only: rename_col_title [OF p])
  qed
  show ?thesis
  proof (cases "''Annual Fee'' \<in> set (columns f)")
    case True
    then have e: "fee_col f = ''Annual Fee''" by (simp add: fee_col_def)
    have "select_rows (\<lambda>r. fee_val (get r ''annual_fee'' []) \<le> x) (rename_columns f)
          = rename_columns (select_rows (\<lambda>r. fee_val (get r ''Annual Fee'' []) \<le> x) f)" for x
      by (rule select_rows_twin) (simp add: get_twin_canonical [OF assms p])
    then show ?thesis using True d by (simp add: fee_filter_def c e split: option.splits)
  next
    case False
    then have e: "fee_col f = ''annual_fee''" by (simp add: fee_col_def)
    show ?thesis using False d b by (simp add: fee_filter_def c e split: option.splits)
  qed
qed

lemma apply_filters_twin:
  assumes "set (columns f) \<subseteq> fst ` set rename_map" and "c = None \<or> c = Some []"
  shows "apply_filters (rename_columns f) b m c = rename_columns (apply_filters f b m c)"
proof -
  have "set (columns (bank_filter b f)) \<subseteq> fst ` set rename_map" using assms(1) by simp
  then have "fee_filter m (rename_columns (bank_filter b f))
             = rename_columns (fee_filter m (bank_filter b f))"
    by (rule fee_filter_twin)
  then show ?thesis
    using assms(2) by (auto simp: apply_filters_def category_filter_def bank_filter_twin [OF assms(1)])
qed

lemma search_base_twin:
  assumes "set (columns (retr_df self)) \<subseteq> fst ` set rename_map" and "c = None \<or> c = Some []"
    and "retr_df self' = rename_columns (retr_df self)"
  shows "search_base self' b m c = rename_columns (search_base self b m c)"
  by (simp add: search_base_def Let_def assms(3) apply_filters_twin [OF assms(1,2)])

lemma foldl_no_keyword:
  "\<forall>w\<in>set ws. \<not> P w
   \<Longrightarrow> foldl (\<lambda>b w. if P w \<and> Q w then b + c else b) a ws = a"
  by (induction ws arbitrary: a) simp_all

lemma keyword_bonus_no_keyword:
  assumes "\<forall>w\<in>set keyword_synonyms. \<not> py_in w (lower q)"
  shows "keyword_bonus q r = 0"
proof -
  have f: "foldl (\<lambda>b w. if py_in w (lower q) \<and> py_in w (keyword_text r) then b + 0.05 else b)
             0 keyword_synonyms = (0 :: real)"
    using assms by (rule foldl_no_keyword)
  show ?thesis unfolding keyword_bonus_def Let_def f by simp
qed

lemma iterrows_twin:
  "map (\<lambda>(i, r). tokenize (row_text r)) (iterrows (rename_columns base))
   = map (\<lambda>(i, r). tokenize (row_text r)) (iterrows base)"
  if "set (columns base) \<subseteq> fst ` set rename_map"
  by (simp add: iterrows_def rename_columns_def row_text_twin [OF that] case_prod_unfold)

lemma score_rows_twin:
  assumes "set (columns base) \<subseteq> fst ` set rename_map"
    and "\<forall>w\<in>set keyword_synonyms. \<not> py_in w (lower q)"
  shows "score_rows gs q b (rename_columns base) = score_rows gs q b base"
proof -
  have "map (\<lambda>((i, row), sim). (i, sim + bank_bonus b row))
          (zip (map (\<lambda>(i, cs). (i, as_series (map rename_col (columns base)) cs)) rs) sims)
        = map (\<lambda>((i, row), sim). (i, sim + bank_bonus b row))
          (zip (map (\<lambda>(i, cs). (i, as_series (columns base) cs)) rs) sims)"
    for rs :: "(nat \<times> string list) list" and sims :: "real list"
    by (simp add: zip_map1 case_prod_unfold bank_bonus_twin [OF assms(1)])
  then show ?thesis
    unfolding score_rows_def Let_def iterrows_twin [OF assms(1)]
    by (simp add: keyword_bonus_no_keyword [OF assms(2)] iterrows_def rename_columns_def)
qed

lemma card_name_twin:
  assumes "set (columns base) \<subseteq> fst ` set rename_map"
  shows "card_name (rename_columns base) i = card_name base i"
proof -
  have p: "(''Card Name'', ''card_name'') \<in> set rename_map" by (rule rename_map_mem)
  show ?thesis
  proof (cases "filter (\<lambda>(j, cs). j = i) (rows base)")
    case Nil
    then show ?thesis by (simp add: card_name_def loc_def rename_columns_def)
  next
    case (Cons r rest)
    obtain j cs where "r = (j, cs)" by (cases r)
    with Cons show ?thesis
      by (simp add: card_name_def loc_def rename_columns_def get_twin [OF assms p])
  qed
qed

lemma pick_cong:
  "(\<And>i. card_name base' i = card_name base i)
   \<Longrightarrow> pick pr kk base' js seen picked = pick pr kk base js seen picked"
  by (induction js arbitrary: seen picked) (simp_all add: Let_def)

lemma diverse_twin:
  assumes "set (columns base) \<subseteq> fst ` set rename_map"
    and "\<forall>w\<in>set keyword_synonyms. \<not> py_in w (lower q)"
  shows "diverse gs pr kk q b (rename_columns base) = diverse gs pr kk q b base"
  unfolding diverse_def ranked_def score_rows_twin [OF assms]
  by (rule pick_cong) (rule card_name_twin [OF assms(1)])

lemma rename_columns_idem: "rename_columns (rename_columns f) = rename_columns f"
  by (simp add: rename_columns_def rename_col_idem)

lemma top_k_twin:
  assumes "set (columns base) \<subseteq> fst ` set rename_map"
    and "\<forall>w\<in>set keyword_synonyms. \<not> py_in w (lower q)"
  shows "top_k gs pr kk q b (rename_columns base) = top_k gs pr kk q b base"
  unfolding top_k_def diverse_twin [OF assms]
  by (simp add: rename_columns_def head_def loc_list_def rename_col_idem)

lemma search_twin:
  assumes "set (columns (retr_df self)) \<subseteq> fst ` set rename_map"
    and "retr_df self' = rename_columns (retr_df self)"
    and "retr_k self' = retr_k self"
    and "retr_bm25 self' = None \<longleftrightarrow> retr_bm25 self = None"
    and "c = None \<or> c = Some []"
    and "\<forall>w\<in>set keyword_synonyms. \<not> py_in w (lower q)"
  shows "search gs pr self' q b m c kk = search gs pr self q b m c kk"
proof -
  have k: "effective_k self' kk = effective_k self kk"
    by (simp add: effective_k_def assms(3) split: option.splits)
  have cols: "set (columns (search_base self b m c)) \<subseteq> fst ` set rename_map"
    using assms(1) by simp
  have "top_k gs pr (effective_k self kk) q b (search_base self' b m c)
        = top_k gs pr (effective_k self kk) q b (search_base self b m c)"
    unfolding search_base_twin [OF assms(1,5,2)] using cols assms(6) by (rule top_k_twin)
  then show ?thesis by (simp add: search_def k assms(2,4))
qed

lemma retr_df_LocalRetriever_cells:
  assumes "\<not> empty f"
  shows "columns (retr_df (LocalRetriever (Some f) k0)) = columns f"
    and "rows (retr_df (LocalRetriever (Some f) k0))
         = map (\<lambda>(i, cs). (i, map (\<lambda>c. case c of None \<Rightarrow> [] | Some t \<Rightarrow> t) cs)) (rows f)"
  using assms by (simp_all add: LocalRetriever_def Let_def fillna_def)

text \<open>
  C2. \<^verbatim>\<open>search\<close> renames each title-case column of the dataset to its canonical name and
  leaves every other column as it is, so a canonical field is among the columns of the
  returned records exactly when the dataset has it under one of its two names; it adds no
  column. The returned rows are rows of the retriever's frame, in which \<^verbatim>\<open>fillna\<close> has made
  every null cell the empty string. A dataset with title-case columns and the same dataset
  with the canonical names give the same result when no category is asked for and the
  query holds none of the bonus keywords: the bank filter, the fee filter, the text that is
  scored, the bank bonus and the name used by the diversity loop read both schemes.
\<close>

theorem C2_renamed_columns_and_scheme_equivalence:
  "(\<not> empty (retr_df self) \<and> retr_bm25 self \<noteq> None
      \<longrightarrow> columns (search gs pr self q b m c kk) = map rename_col (columns (retr_df self))
        \<and> (\<forall>(T, n)\<in>set rename_map.
              n \<in> set (columns (search gs pr self q b m c kk))
              \<longleftrightarrow> T \<in> set (columns (retr_df self)) \<or> n \<in> set (columns (retr_df self))))
   \<and> set (rows (search gs pr self q b m c kk)) \<subseteq> set (rows (retr_df self))
   \<and> (\<not> empty f
      \<longrightarrow> columns (retr_df (LocalRetriever (Some f) k0)) = columns f
        \<and> rows (retr_df (LocalRetriever (Some f) k0))
            = map (\<lambda>(i, cs). (i, map (\<lambda>c. case c of None \<Rightarrow> [] | Some t \<Rightarrow> t) cs)) (rows f))
   \<and> (set (columns (retr_df self)) \<subseteq> fst ` set rename_map
        \<and> retr_df self' = rename_columns (retr_df self)
        \<and> retr_k self' = retr_k self
        \<and> (retr_bm25 self' = None \<longleftrightarrow> retr_bm25 self = None)
        \<and> (c = None \<or> c = Some [])
        \<and> (\<forall>w\<in>set keyword_synonyms. \<not> py_in w (lower q))
      \<longrightarrow> search gs pr self' q b m c kk = search gs pr self q b m c kk)"
proof (intro conjI impI)
  assume a: "\<not> empty (retr_df self) \<and> retr_bm25 self \<noteq> None"
  then have e: "\<not> empty (retr_df self)" and i: "retr_bm25 self \<noteq> None" by blast+
  show "columns (search gs pr self q b m c kk) = map rename_col (columns (retr_df self))"
    using e i by (rule columns_search)
  show "\<forall>(T, n)\<in>set rename_map.
          n \<in> set (columns (search gs pr self q b m c kk))
          \<longleftrightarrow> T \<in> set (columns (retr_df self)) \<or> n \<in> set (columns (retr_df self))"
  proof (intro ballI, unfold split_paired_all case_prod_conv)
    fix T n
    assume "(T, n) \<in> set rename_map"
    with e i show "n \<in> set (columns (search gs pr self q b m c kk))
          \<longleftrightarrow> T \<in> set (columns (retr_df self)) \<or> n \<in> set (columns (retr_df self))"
      by (rule canonical_field_present)
  qed
next
  show "set (rows (search gs pr self q b m c kk)) \<subseteq> set (rows (retr_df self))"
    by (rule set_rows_search)
next
  assume "\<not> empty f"
  then show "columns (retr_df (LocalRetriever (Some f) k0)) = columns f"
    by (rule retr_df_LocalRetriever_cells)
next
  assume "\<not> empty f"
  then show "rows (retr_df (LocalRetriever (Some f) k0))
            = map (\<lambda>(i, cs). (i, map (\<lambda>c. case c of None \<Rightarrow> [] | Some t \<Rightarrow> t) cs)) (rows f)"
    by (rule retr_df_LocalRetriever_cells)
next
  assume h: "set (columns (retr_df self)) \<subseteq> fst ` set rename_map
        \<and> retr_df self' = rename_columns (retr_df self)
        \<and> retr_k self' = retr_k self
        \<and> (retr_bm25 self' = None \<longleftrightarrow> retr_bm25 self = None)
        \<and> (c = None \<or> c = Some [])
        \<and> (\<forall>w\<in>set keyword_synonyms. \<not> py_in w (lower q))"
  show "search gs pr self' q b m c kk = search gs pr self q b m c kk"
    by (rule search_twin) (use h in blast)+
qed

text \<open>
  C2, as the claim reads. A dataset that has no \<^verbatim>\<open>FAQ\<close> column gives records that have no
  \<^verbatim>\<open>faq\<close> field: the columns of the result are the three columns of the dataset, renamed.
\<close>

theorem C2_counterexample:
  "rows (search overlap_scores same_name_ratio (LocalRetriever (Some fee_table) 5)
           ''gold'' None None None None) \<noteq> []
   \<and> columns (search overlap_scores same_name_ratio (LocalRetriever (Some fee_table) 5)
           ''gold'' None None None None) = [''card_name'', ''bank_name'', ''annual_fee'']
   \<and> ''faq'' \<notin> set (columns (search overlap_scores same_name_ratio
           (LocalRetriever (Some fee_table) 5) ''gold'' None None None None))"
  by code_simp

theorem C2_renamed_columns_and_scheme_equivalence_witness:
  "\<not> empty (retr_df (LocalRetriever (Some fee_table) 5))
   \<and> retr_bm25 (LocalRetriever (Some fee_table) 5) \<noteq> None
   \<and> \<not> empty fee_table
   \<and> set (columns (retr_df (LocalRetriever (Some fee_table) 5))) \<subseteq> fst ` set rename_map
   \<and> retr_df (LocalRetriever (Some snake_fee_table) 5)
       = rename_columns (retr_df (LocalRetriever (Some fee_table) 5))
   \<and> rows (search overlap_scores same_name_ratio (LocalRetriever (Some fee_table) 5)
         ''gold'' (Some ''SBI'') (Some 6000) None (Some 3)) \<noteq> []
   \<and> columns (search overlap_scores same_name_ratio (LocalRetriever (Some fee_table) 5)
         ''gold'' (Some ''SBI'') (Some 6000) None (Some 3))
       = map rename_col (columns (retr_df (LocalRetriever (Some fee_table) 5)))
   \<and> ''annual_fee'' \<in> set (columns (search overlap_scores same_name_ratio
         (LocalRetriever (Some fee_table) 5) ''gold'' (Some ''SBI'') (Some 6000) None (Some 3)))
   \<and> rows (retr_df (LocalRetriever (Some fee_table) 5))
       = map (\<lambda>(i, cs). (i, map (\<lambda>c. case c of None \<Rightarrow> [] | Some t \<Rightarrow> t) cs)) (rows fee_table)
   \<and> search overlap_scores same_name_ratio (LocalRetriever (Some snake_fee_table) 5)
         ''gold'' (Some ''SBI'') (Some 6000) None (Some 3)
       = search overlap_scores same_name_ratio (LocalRetriever (Some fee_table) 5)
         ''gold'' (Some ''SBI'') (Some 6000) None (Some 3)"
proof -
  define S where "S = LocalRetriever (Some fee_table) 5"
  define S' where "S' = LocalRetriever (Some snake_fee_table) 5"
  have e: "\<not> empty (retr_df S)" unfolding S_def by code_simp
  have i: "retr_bm25 S \<noteq> None" unfolding S_def by code_simp
  have ef: "\<not> empty fee_table" by code_simp
  have cols: "set (columns (retr_df S)) \<subseteq> fst ` set rename_map" unfolding S_def by code_simp
  have tw: "retr_df S' = rename_columns (retr_df S)" unfolding S_def S'_def by code_simp
  have k: "retr_k S' = retr_k S" unfolding S_def S'_def by code_simp
  have i': "retr_bm25 S' = None \<longleftrightarrow> retr_bm25 S = None" unfolding S_def S'_def by code_simp
  have kw: "\<forall>w\<in>set keyword_synonyms. \<not> py_in w (lower ''gold'')" by code_simp
  have ne: "rows (search overlap_scores same_name_ratio S
         ''gold'' (Some ''SBI'') (Some 6000) None (Some 3)) \<noteq> []"
    unfolding S_def by code_simp
  have mem: "(''Annual Fee'', ''annual_fee'') \<in> set rename_map" by (rule rename_map_mem)
  have af: "''Annual Fee'' \<in> set (columns (retr_df S))" unfolding S_def by code_simp
  note t = C2_renamed_columns_and_scheme_equivalence
    [where self = S and self' = S' and gs = overlap_scores and pr = same_name_ratio
       and q = "''gold''" and b = "Some ''SBI''" and m = "Some 6000" and c = None
       and kk = "Some 3" and f = fee_table and ?k0.0 = 5]
  from t e i have c1: "columns (search overlap_scores same_name_ratio S
         ''gold'' (Some ''SBI'') (Some 6000) None (Some 3)) = map rename_col (columns (retr_df S))"
    by blast
  from t e i have "\<forall>(T, n)\<in>set rename_map.
       n \<in> set (columns (search overlap_scores same_name_ratio S
              ''gold'' (Some ''SBI'') (Some 6000) None (Some 3)))
       \<longleftrightarrow> T \<in> set (columns (retr_df S)) \<or> n \<in> set (columns (retr_df S))"
    by blast
  with mem af have c2: "''annual_fee'' \<in> set (columns (search overlap_scores same_name_ratio S
         ''gold'' (Some ''SBI'') (Some 6000) None (Some 3)))"
    by blast
  from t ef have c3: "rows (retr_df (LocalRetriever (Some fee_table) 5))
       = map (\<lambda>(i, cs). (i, map (\<lambda>c. case c of None \<Rightarrow> [] | Some t \<Rightarrow> t) cs)) (rows fee_table)"
    by blast
  from t cols tw k i' kw have c4: "search overlap_scores same_name_ratio S'
         ''gold'' (Some ''SBI'') (Some 6000) None (Some 3)
       = search overlap_scores same_name_ratio S
         ''gold'' (Some ''SBI'') (Some 6000) None (Some 3)"
    by blast
  show ?thesis
    using e i ef cols tw ne c1 c2 c3 c4 unfolding S_def S'_def by (intro conjI)
qed

end
